theory Spec2Isabelle
  imports Main "HOL-Library.Sublist" "HOL-Library.AList"
begin

section \<open>Text: Python strings and the character classes of the regular expressions\<close>

text \<open>
  A Python \<open>str\<close> is modelled as a \<^typ>\<open>string\<close>: a list of characters, each read as
  one code point in the range 0 to 255. The contents of a file are the text that
  \<open>read()\<close> returns and that \<open>write()\<close> receives: the files are opened in text mode, and
  the decoding and the translation of line ends are not part of the model.

  \<open>is_space\<close> is the class \<open>\s\<close> of a \<open>str\<close> pattern, which is also what
  \<open>str.strip()\<close> removes; \<open>is_word\<close> is the class \<open>\w\<close>, from which \<open>\b\<close> is derived.
  Both are given for the code points below 256.
\<close>

definition is_space :: "char \<Rightarrow> bool" where
  "is_space c \<longleftrightarrow> c \<in> {CHR 0x09, CHR 0x0A, CHR 0x0B, CHR 0x0C, CHR 0x0D,
      CHR 0x1C, CHR 0x1D, CHR 0x1E, CHR 0x1F, CHR 0x20, CHR 0x85, CHR 0xA0}"

definition is_word :: "char \<Rightarrow> bool" where
  "is_word c \<longleftrightarrow> (let n = (of_char c :: nat) in
      (48 \<le> n \<and> n \<le> 57) \<or> (65 \<le> n \<and> n \<le> 90) \<or> n = 95 \<or> (97 \<le> n \<and> n \<le> 122) \<or>
      n \<in> {170, 178, 179, 181, 185, 186, 188, 189, 190} \<or>
      (192 \<le> n \<and> n \<le> 214) \<or> (216 \<le> n \<and> n \<le> 246) \<or> 248 \<le> n)"

text \<open>\<open>\b\<close> at a position: the character before it (if any) and the character at it (if
  any) differ in being word characters; outside the text counts as a non-word.\<close>

definition word_opt :: "char option \<Rightarrow> bool" where
  "word_opt p = (case p of None \<Rightarrow> False | Some c \<Rightarrow> is_word c)"

definition boundary :: "char option \<Rightarrow> string \<Rightarrow> bool" where
  "boundary p s \<longleftrightarrow> word_opt p \<noteq> (case s of [] \<Rightarrow> False | c # _ \<Rightarrow> is_word c)"

text \<open>\<open>sub in s\<close> of Python, for a non-empty or empty \<open>sub\<close>.\<close>

fun contains :: "string \<Rightarrow> string \<Rightarrow> bool" where
  "contains sub [] = (sub = [])"
| "contains sub (c # cs) = (prefix sub (c # cs) \<or> contains sub cs)"

text \<open>\<open>s.find(c)\<close> and \<open>s.rfind(c)\<close> for a single character: the index of the first
  (last) occurrence, or -1.\<close>

fun find_char :: "char \<Rightarrow> string \<Rightarrow> int" where
  "find_char x [] = -1"
| "find_char x (c # cs) =
     (if c = x then 0 else (let i = find_char x cs in if i < 0 then -1 else i + 1))"

definition rfind_char :: "char \<Rightarrow> string \<Rightarrow> int" where
  "rfind_char x s = (let i = find_char x (rev s) in if i < 0 then -1 else int (length s) - 1 - i)"

text \<open>\<open>s[a:b]\<close>: a negative index counts from the end, both are clamped to the text.\<close>

definition slice_index :: "string \<Rightarrow> int \<Rightarrow> nat" where
  "slice_index s i =
     (if i < 0 then nat (max 0 (i + int (length s))) else min (nat i) (length s))"

definition py_slice :: "string \<Rightarrow> int \<Rightarrow> int \<Rightarrow> string" where
  "py_slice s a b = take (slice_index s b - slice_index s a) (drop (slice_index s a) s)"

text \<open>\<open>s.strip()\<close>.\<close>

definition strip :: "string \<Rightarrow> string" where
  "strip s = rev (dropWhile is_space (rev (dropWhile is_space s)))"

text \<open>\<open>s.replace(old, new, 1)\<close> for a non-empty \<open>old\<close>: the first occurrence only.\<close>

fun replace_first :: "string \<Rightarrow> string \<Rightarrow> string \<Rightarrow> string" where
  "replace_first old new [] = []"
| "replace_first old new (c # cs) =
     (if prefix old (c # cs) then new @ drop (length old) (c # cs)
      else c # replace_first old new cs)"

text \<open>\<open>sep.join(xs)\<close>.\<close>

fun join :: "string \<Rightarrow> string list \<Rightarrow> string" where
  "join sep [] = []"
| "join sep [x] = x"
| "join sep (x # y # ys) = x @ sep @ join sep (y # ys)"

section \<open>The regular expressions\<close>

text \<open>
  A pattern is modelled by its matcher at one position: given the character before the
  position (for \<open>\b\<close>) and the text from the position on (so a lookahead sees all of it),
  it returns the length of the match there, if there is one.

  In each pattern of the opener kind a greedy \<open>\s*\<close> or \<open>\s+\<close> is followed by a
  character that is not white space, and \<open>[^}]*\<close> by \<open>}\<close>: giving back characters can
  never help, so the longest run is the only candidate.
\<close>

type_synonym matcher = "char option \<Rightarrow> string \<Rightarrow> nat option"

text \<open>\<open>material\s+\<close>\<close>

definition m_material :: matcher where
  "m_material p s =
     (if prefix ''material'' s \<and> takeWhile is_space (drop 8 s) \<noteq> []
      then Some (8 + length (takeWhile is_space (drop 8 s))) else None)"

text \<open>\<open>\bKW\s*{\<close>, for \<open>KW\<close> one of \<open>pass\<close> and \<open>texture_unit\<close>.\<close>

definition m_opener :: "string \<Rightarrow> matcher" where
  "m_opener kw p s =
     (if boundary p s \<and> prefix kw s \<and>
         prefix ''{'' (dropWhile is_space (drop (length kw) s))
      then Some (length kw + length (takeWhile is_space (drop (length kw) s)) + 1)
      else None)"

text \<open>\<open>\bKW\b(?=\s*{)\<close>, for \<open>KW\<close> one of \<open>technique\<close> and \<open>texture_unit\<close>: the lookahead
  consumes nothing.\<close>

definition m_keyword :: "string \<Rightarrow> matcher" where
  "m_keyword kw p s =
     (if boundary p s \<and> prefix kw s \<and>
         boundary (Some (last kw)) (drop (length kw) s) \<and>
         prefix ''{'' (dropWhile is_space (drop (length kw) s))
      then Some (length kw) else None)"

text \<open>\<open>pass\s*{[^}]*}\<close> (the flag DOTALL changes nothing: the pattern has no dot).\<close>

definition m_pass_block :: matcher where
  "m_pass_block p s =
     (if prefix ''pass'' s then
        (let ws = takeWhile is_space (drop 4 s);
             r = dropWhile is_space (drop 4 s) in
         if prefix ''{'' r then
           (let body = takeWhile (\<lambda>c. c \<noteq> CHR ''}'') (tl r);
                r' = dropWhile (\<lambda>c. c \<noteq> CHR ''}'') (tl r) in
            if prefix ''}'' r' then Some (4 + length ws + 1 + length body + 1) else None)
         else None)
      else None)"

text \<open>
  \<open>re.findall\<close>, \<open>re.sub\<close> and \<open>re.split\<close> scan the text from left to right: where the
  pattern matches, the match is taken and the scan goes on after it; elsewhere it moves
  on by one character. An empty match (none of the patterns here has one) is taken and
  the scan moves on by one character.
\<close>

function re_findall :: "matcher \<Rightarrow> char option \<Rightarrow> string \<Rightarrow> string list" where
  "re_findall m p [] = (case m p [] of None \<Rightarrow> [] | Some _ \<Rightarrow> [[]])"
| "re_findall m p (c # cs) =
     (case m p (c # cs) of
        None \<Rightarrow> re_findall m (Some c) cs
      | Some 0 \<Rightarrow> [] # re_findall m (Some c) cs
      | Some (Suc n) \<Rightarrow>
          take (Suc n) (c # cs) # re_findall m (Some ((c # cs) ! n)) (drop n cs))"
  by pat_completeness auto
termination
  by (relation "measure (\<lambda>(m, p, s). length s)") auto

function re_sub :: "matcher \<Rightarrow> (string \<Rightarrow> string) \<Rightarrow> char option \<Rightarrow> string \<Rightarrow> string" where
  "re_sub m repl p [] = (case m p [] of None \<Rightarrow> [] | Some _ \<Rightarrow> repl [])"
| "re_sub m repl p (c # cs) =
     (case m p (c # cs) of
        None \<Rightarrow> c # re_sub m repl (Some c) cs
      | Some 0 \<Rightarrow> repl [] @ c # re_sub m repl (Some c) cs
      | Some (Suc n) \<Rightarrow>
          repl (take (Suc n) (c # cs)) @ re_sub m repl (Some ((c # cs) ! n)) (drop n cs))"
  by pat_completeness auto
termination
  by (relation "measure (\<lambda>(m, r, p, s). length s)") auto

text \<open>\<open>re.split\<close> returns the pieces between the matches: always at least one.\<close>

definition cons_hd :: "char \<Rightarrow> string list \<Rightarrow> string list" where
  "cons_hd c ps = (case ps of [] \<Rightarrow> [[c]] | x # xs \<Rightarrow> (c # x) # xs)"

function re_split :: "matcher \<Rightarrow> char option \<Rightarrow> string \<Rightarrow> string list" where
  "re_split m p [] = (case m p [] of None \<Rightarrow> [[]] | Some _ \<Rightarrow> [[], []])"
| "re_split m p (c # cs) =
     (case m p (c # cs) of
        None \<Rightarrow> cons_hd c (re_split m (Some c) cs)
      | Some 0 \<Rightarrow> [] # cons_hd c (re_split m (Some c) cs)
      | Some (Suc n) \<Rightarrow> [] # re_split m (Some ((c # cs) ! n)) (drop n cs))"
  by pat_completeness auto
termination
  by (relation "measure (\<lambda>(m, p, s). length s)") auto

section \<open>The updater\<close>

subsection \<open>Splitting a file into material blocks\<close>

definition parse_material_file :: "string \<Rightarrow> string list" where
  "parse_material_file content =
     map (\<lambda>mat. ''material '' @ mat) (tl (re_split m_material None content))"

subsection \<open>Eligibility\<close>

definition pass_count :: "string \<Rightarrow> nat" where
  "pass_count material_text = length (re_findall (m_opener ''pass'') None material_text)"

definition texture_unit_count :: "string \<Rightarrow> nat" where
  "texture_unit_count material_text =
     length (re_findall (m_opener ''texture_unit'') None material_text)"

definition is_eligible_material :: "string \<Rightarrow> bool" where
  "is_eligible_material material_text =
     (if list_ex (\<lambda>x. contains x material_text)
           [''vertex_program_ref'', ''fragment_program_ref'', ''tex_coord_set'']
      then False
      else pass_count material_text \<in> set [1, 2] \<and> texture_unit_count material_text = 1)"

subsection \<open>Transformation\<close>

datatype error =
  AttributeError | FileNotFoundError | NotADirectoryError | FileExistsError | IsADirectoryError

text \<open>
  \<open>re.match(r'material\s+([^\n{]+)([\s]*)', material_text)\<close>, returning the two groups.
  After \<open>\s+\<close> the first group takes the longest run of characters other than newline
  and \<open>{\<close>, which must not be empty, and the second group the white space that follows;
  when the first group is empty, \<open>\s+\<close> gives back one character and the groups are tried
  again, down to a single white-space character.
\<close>

definition name_groups :: "string \<Rightarrow> (string \<times> string) option" where
  "name_groups s =
     (let g1 = takeWhile (\<lambda>c. c \<noteq> CHR 0x0A \<and> c \<noteq> CHR ''{'') s in
      if g1 = [] then None else Some (g1, takeWhile is_space (drop (length g1) s)))"

fun name_backtrack :: "nat \<Rightarrow> string \<Rightarrow> (string \<times> string) option" where
  "name_backtrack 0 s = None"
| "name_backtrack (Suc k) s =
     (case name_groups (drop (Suc k) s) of
        Some g \<Rightarrow> Some g
      | None \<Rightarrow> name_backtrack k s)"

definition name_match :: "string \<Rightarrow> (string \<times> string) option" where
  "name_match material_text =
     (if prefix ''material'' material_text
      then name_backtrack (length (takeWhile is_space (drop 8 material_text)))
             (drop 8 material_text)
      else None)"

text \<open>The slices of the block: between the first \<open>{\<close> and the last \<open>}\<close>, and between the
  end of \<open>material <name>\<close> and the first \<open>{\<close>.\<close>

definition inner_of :: "string \<Rightarrow> string" where
  "inner_of material_text =
     (let start_brace = find_char CHR ''{'' material_text;
          end_brace = rfind_char CHR ''}'' material_text
      in py_slice material_text (start_brace + 1) end_brace)"

definition pre_brace_of :: "string \<Rightarrow> string \<Rightarrow> string" where
  "pre_brace_of material_name material_text =
     (let start_brace = find_char CHR ''{'' material_text
      in py_slice material_text (int (length (''material '' @ material_name))) start_brace)"

definition rename_technique :: "string \<Rightarrow> string" where
  "rename_technique inner_content =
     re_sub (m_keyword ''technique'') (\<lambda>_. ''technique BaseTechnique'') None inner_content"

definition replace_pass :: "string \<Rightarrow> string" where
  "replace_pass pass_block =
     (if contains ''texture_unit'' pass_block
      then replace_first ''pass'' ''pass BaseRender'' pass_block
      else pass_block)"

definition rename_passes :: "string \<Rightarrow> string" where
  "rename_passes inner_content = re_sub m_pass_block replace_pass None inner_content"

definition rename_texture_unit :: "string \<Rightarrow> string" where
  "rename_texture_unit inner_content =
     re_sub (m_keyword ''texture_unit'') (\<lambda>_. ''texture_unit Diffuse_Map'') None inner_content"

definition transform_material :: "string \<Rightarrow> error + string" where
  "transform_material material_text =
     (case name_match material_text of
        None \<Rightarrow> Inl AttributeError
      | Some (g1, name_whitespace) \<Rightarrow>
          (let material_name = strip g1;
               pre_brace_ws = pre_brace_of material_name material_text;
               inner_content = inner_of material_text;
               inner_content = rename_technique inner_content;
               inner_content = rename_passes inner_content;
               inner_content = rename_texture_unit inner_content
           in Inr (''material '' @ material_name @ '': RoR/Managed_Mats/Base'' @ pre_brace_ws
                    @ ''{'' @ inner_content @ ''}'')))"

subsection \<open>Files\<close>

text \<open>
  The input folder is a list of named entries, in the order in which the directory is
  listed. An entry is a regular file with its text or a directory; of a directory only
  the regular files it holds matter here (the backup folder).
\<close>

datatype entry = RegFile string | Directory "(string \<times> string) list"

datatype root = Absent | NotDir | Folder "(string \<times> entry) list"

datatype message =
    Scanning | BackupFolder | Processing string | Updated int string | NoEligible
  | NoFilesFound | Summary int int int

datatype fs_op = Mkdir string | CopyToBackup string | WriteFile string

record updater =
  input_folder :: "(string \<times> entry) list"
  processed_files :: int
  processed_materials :: int
  updated_materials :: int
  console :: "message list"
  fs_log :: "fs_op list"

text \<open>\<open>__init__\<close>: \<open>mkdir(exist_ok=True)\<close> creates the backup folder unless it is there
  already as a directory.\<close>

definition new_updater :: "(string \<times> entry) list \<Rightarrow> fs_op list \<Rightarrow> updater" where
  "new_updater es ops = \<lparr>input_folder = es, processed_files = 0, processed_materials = 0,
     updated_materials = 0, console = [], fs_log = ops\<rparr>"

definition init :: "root \<Rightarrow> error + updater" where
  "init r =
     (case r of
        Absent \<Rightarrow> Inl FileNotFoundError
      | NotDir \<Rightarrow> Inl NotADirectoryError
      | Folder es \<Rightarrow>
          (case map_of es ''old_materials'' of
             None \<Rightarrow> Inr (new_updater (es @ [(''old_materials'', Directory [])])
                           [Mkdir ''old_materials''])
           | Some (Directory d) \<Rightarrow> Inr (new_updater es [])
           | Some (RegFile x) \<Rightarrow> Inl FileExistsError))"

text \<open>The loop of \<open>process_file\<close> over the blocks.\<close>

fun materials_loop ::
  "updater \<Rightarrow> string list \<Rightarrow> int \<Rightarrow> string list \<Rightarrow> error + (updater \<times> string list \<times> int)" where
  "materials_loop u updated updated_count [] = Inr (u, updated, updated_count)"
| "materials_loop u updated updated_count (material # rest) =
     (let u1 = u\<lparr>processed_materials := processed_materials u + 1\<rparr> in
      if is_eligible_material material then
        (case transform_material material of
           Inl e \<Rightarrow> Inl e
         | Inr t \<Rightarrow>
             materials_loop (u1\<lparr>updated_materials := updated_materials u1 + 1\<rparr>)
               (updated @ [t]) (updated_count + 1) rest)
      else materials_loop u1 (updated @ [material]) updated_count rest)"

definition import_line :: string where
  "import_line = ''import * from \"managed_mats.material\"'' @ [CHR 0x0A, CHR 0x0A]"

definition blank_line :: string where
  "blank_line = [CHR 0x0A, CHR 0x0A]"

definition process_file :: "updater \<Rightarrow> string \<Rightarrow> error + updater" where
  "process_file u0 file_name =
     (let u = u0\<lparr>console := console u0 @ [Processing file_name]\<rparr> in
      case map_of (input_folder u) file_name of
        None \<Rightarrow> Inl FileNotFoundError
      | Some (Directory d) \<Rightarrow> Inl IsADirectoryError
      | Some (RegFile content) \<Rightarrow>
          (case materials_loop u [] 0 (parse_material_file content) of
             Inl e \<Rightarrow> Inl e
           | Inr (u1, updated, updated_count) \<Rightarrow>
               if updated_count > 0 then
                 (case map_of (input_folder u1) ''old_materials'' of
                    None \<Rightarrow> Inl FileNotFoundError
                  | Some (RegFile x) \<Rightarrow> Inl NotADirectoryError
                  | Some (Directory d) \<Rightarrow>
                      (let u2 = u1\<lparr>input_folder := AList.update ''old_materials''
                                      (Directory (AList.update file_name content d))
                                      (input_folder u1),
                                    fs_log := fs_log u1 @ [CopyToBackup file_name]\<rparr>;
                           output_content = import_line @ join blank_line updated;
                           u3 = u2\<lparr>input_folder := AList.update file_name
                                      (RegFile output_content) (input_folder u2),
                                    fs_log := fs_log u2 @ [WriteFile file_name]\<rparr>
                       in Inr (u3\<lparr>console := console u3 @ [Updated updated_count file_name],
                                  processed_files := processed_files u3 + 1\<rparr>)))
               else Inr (u1\<lparr>console := console u1 @ [NoEligible]\<rparr>)))"

text \<open>\<open>run\<close>: \<open>glob('*.material')\<close> lists the entries whose name ends in \<open>.material\<close>.\<close>

definition glob_material :: "(string \<times> entry) list \<Rightarrow> string list" where
  "glob_material es = filter (\<lambda>n. suffix ''.material'' n) (map fst es)"

fun process_all :: "updater \<Rightarrow> string list \<Rightarrow> error + updater" where
  "process_all u [] = Inr u"
| "process_all u (f # fs) =
     (case process_file u f of Inl e \<Rightarrow> Inl e | Inr u' \<Rightarrow> process_all u' fs)"

definition run :: "updater \<Rightarrow> error + updater" where
  "run u0 =
     (let u = u0\<lparr>console := console u0 @ [Scanning, BackupFolder]\<rparr>;
          material_files = glob_material (input_folder u)
      in if material_files = [] then Inr (u\<lparr>console := console u @ [NoFilesFound]\<rparr>)
         else (case process_all u material_files of
                 Inl e \<Rightarrow> Inl e
               | Inr u' \<Rightarrow> Inr (u'\<lparr>console := console u' @
                   [Summary (processed_files u') (processed_materials u')
                      (updated_materials u')]\<rparr>)))"

text \<open>The script: construct the updater, then run it.\<close>

definition main :: "root \<Rightarrow> error + updater" where
  "main r = (case init r of Inl e \<Rightarrow> Inl e | Inr u \<Rightarrow> run u)"

section \<open>Notions used to state the properties\<close>

text \<open>The number of positions of a text at which a pattern matches, each position taken
  on its own (the scans above skip the positions inside a match).\<close>

fun count_matches :: "matcher \<Rightarrow> char option \<Rightarrow> string \<Rightarrow> nat" where
  "count_matches m p [] = 0"
| "count_matches m p (c # cs) =
     (if m p (c # cs) = None then 0 else 1) + count_matches m (Some c) cs"

text \<open>At index \<open>i\<close> of the text the word \<open>kw\<close> starts and is followed, after white space
  only, by \<open>{\<close>; and the number of such indices.\<close>

definition opens_block :: "string \<Rightarrow> string \<Rightarrow> nat \<Rightarrow> bool" where
  "opens_block kw t i \<longleftrightarrow>
     i < length t \<and> (i = 0 \<or> \<not> is_word (t ! (i - 1))) \<and> prefix kw (drop i t) \<and>
     prefix ''{'' (dropWhile is_space (drop (i + length kw) t))"

definition opener_count :: "string \<Rightarrow> string \<Rightarrow> nat" where
  "opener_count kw t = length (filter (opens_block kw t) [0..<length t])"

text \<open>A span \<open>pass { ... }\<close> that ends at the first \<open>}\<close>: the keyword, white space, \<open>{\<close>,
  a body without \<open>}\<close>, and \<open>}\<close>.\<close>

definition is_pass_span :: "string \<Rightarrow> bool" where
  "is_pass_span span \<longleftrightarrow>
     prefix ''pass'' span \<and>
     (let r = dropWhile is_space (drop 4 span)
      in prefix ''{'' r \<and> r \<noteq> ''{'' \<and> last r = CHR ''}'' \<and> CHR ''}'' \<notin> set (butlast (tl r)))"

definition starts_pass_span :: "string \<Rightarrow> bool" where
  "starts_pass_span s \<longleftrightarrow> (\<exists>n \<in> {..length s}. is_pass_span (take n s))"

text \<open>The three renamings, each a keyword and the suffix identifier appended to it; and
  the texts reached from a text by such appends alone, so that removing the appended
  identifiers again gives the text back.\<close>

definition renamings :: "(string \<times> string) list" where
  "renamings = [(''technique'', '' BaseTechnique''), (''pass'', '' BaseRender''),
     (''texture_unit'', '' Diffuse_Map'')]"

inductive renames_only :: "string \<Rightarrow> string \<Rightarrow> bool" where
  same: "renames_only s s"
| append: "renames_only s (a @ kw @ b) \<Longrightarrow> (kw, suf) \<in> set renamings \<Longrightarrow>
     renames_only s (a @ kw @ suf @ b)"

text \<open>What the loop of \<open>process_file\<close> appends for a block, when the transformation
  returns.\<close>

definition rewrite_block :: "string \<Rightarrow> string" where
  "rewrite_block material =
     (if is_eligible_material material
      then (case transform_material material of Inr t \<Rightarrow> t | Inl e \<Rightarrow> material)
      else material)"

text \<open>A keyword: a non-empty run of word characters. The character before a position
  that lies after the text \<open>u\<close>, when \<open>p\<close> is the character before \<open>u\<close>.\<close>

definition word_kw :: "string \<Rightarrow> bool" where
  "word_kw kw \<longleftrightarrow> kw \<noteq> [] \<and> (\<forall>c\<in>set kw. is_word c)"

definition last_opt :: "char option \<Rightarrow> string \<Rightarrow> char option" where
  "last_opt p u = (if u = [] then p else Some (last u))"

text \<open>The header of a transformed block: all that stands before its \<open>{\<close>.\<close>

definition header_of :: "string \<Rightarrow> string \<Rightarrow> string" where
  "header_of g1 t =
     ''material '' @ strip g1 @ '': RoR/Managed_Mats/Base'' @ pre_brace_of (strip g1) t"

text \<open>A plain text: it holds none of the three keywords and, unless empty, ends in a
  non-word character. A text \<open>x\<close> followed by \<open>y\<close> is quiet for a pattern when the pattern
  matches at no position inside \<open>x\<close>.\<close>

definition plain :: "string \<Rightarrow> bool" where
  "plain g \<longleftrightarrow> \<not> sublist ''technique'' g \<and> \<not> sublist ''pass'' g \<and>
     \<not> sublist ''texture_unit'' g \<and> (g = [] \<or> \<not> is_word (last g))"

definition quiet :: "matcher \<Rightarrow> char option \<Rightarrow> string \<Rightarrow> string \<Rightarrow> bool" where
  "quiet m p x y \<longleftrightarrow> (\<forall>i<length x. m (last_opt p (take i x)) (drop i (x @ y)) = None)"

section \<open>Evaluation\<close>

lemmas char_defs = is_space_def is_word_def word_opt_def boundary_def
lemmas matcher_defs = m_material_def m_opener_def m_keyword_def m_pass_block_def
lemmas text_defs = rfind_char_def slice_index_def py_slice_def strip_def cons_hd_def
lemmas updater_defs = parse_material_file_def pass_count_def texture_unit_count_def
  is_eligible_material_def name_groups_def name_match_def inner_of_def pre_brace_of_def
  rename_technique_def replace_pass_def rename_passes_def rename_texture_unit_def
  transform_material_def
lemmas eval_defs = char_defs matcher_defs text_defs updater_defs

section \<open>Substrings and splitting\<close>

lemma contains_sublist: "contains sub s \<longleftrightarrow> sublist sub s"
  by (induction s) (auto simp: sublist_Cons_right)

lemma re_split_not_Nil: "re_split m p s \<noteq> []"
  by (induction m p s rule: re_split.induct) (auto simp: cons_hd_def split: option.splits nat.splits list.splits)

lemma tl_cons_hd: "ps \<noteq> [] \<Longrightarrow> tl (cons_hd c ps) = tl ps"
  by (cases ps) (auto simp: cons_hd_def)

lemma hd_cons_hd: "ps \<noteq> [] \<Longrightarrow> hd (cons_hd c ps) = c # hd ps"
  by (cases ps) (auto simp: cons_hd_def)

lemma m_material_Some:
  assumes "m_material p s = Some k"
  shows "\<exists>ws. ws \<noteq> [] \<and> (\<forall>c\<in>set ws. is_space c) \<and> s = ''material'' @ ws @ drop k s \<and>
     k = 8 + length ws \<and> (drop k s = [] \<or> \<not> is_space (hd (drop k s)))"
proof -
  let ?ws = "takeWhile is_space (drop 8 s)"
  from assms have pre: "prefix ''material'' s" and ne: "?ws \<noteq> []" and k: "k = 8 + length ?ws"
    by (auto simp: m_material_def split: if_splits)
  from pre have s: "s = ''material'' @ drop 8 s"
    by (auto simp: prefix_def)
  have d: "drop k s = dropWhile is_space (drop 8 s)"
    unfolding k by (metis add.commute drop_drop dropWhile_eq_drop)
  have "drop 8 s = ?ws @ drop k s" unfolding d by simp
  with s have "s = ''material'' @ ?ws @ drop k s" by metis
  moreover have "\<forall>c\<in>set ?ws. is_space c" by (auto dest: set_takeWhileD)
  moreover have "drop k s = [] \<or> \<not> is_space (hd (drop k s))"
    unfolding d by (metis hd_dropWhile)
  ultimately show ?thesis using ne k by blast
qed

lemma m_material_not_0: "m_material p s \<noteq> Some 0"
  by (auto simp: m_material_def)

text \<open>The first piece of a split is a prefix of the text.\<close>

lemma hd_re_split_prefix: "prefix (hd (re_split m p s)) s"
proof (induction m p s rule: re_split.induct)
  case (1 m p)
  then show ?case by (auto split: option.splits)
next
  case (2 m p c cs)
  show ?case
  proof (cases "m p (c # cs)")
    case None
    with 2 show ?thesis by (simp add: hd_cons_hd re_split_not_Nil)
  next
    case (Some k)
    then show ?thesis by (cases k) auto
  qed
qed

text \<open>Every later piece of a split on \<open>material\s+\<close> follows, in the text, the keyword
  and a run of white space, and does not start with white space.\<close>

lemma re_split_material_pieces:
  "x \<in> set (tl (re_split m_material p s)) \<Longrightarrow>
     (x = [] \<or> \<not> is_space (hd x)) \<and>
     (\<exists>ws. ws \<noteq> [] \<and> (\<forall>c\<in>set ws. is_space c) \<and> sublist (''material'' @ ws @ x) s)"
proof (induction m_material p s arbitrary: x rule: re_split.induct)
  case (1 p)
  then show ?case by (auto simp: m_material_def)
next
  case (2 p c cs)
  show ?case
  proof (cases "m_material p (c # cs)")
    case None
    with 2(4) have "x \<in> set (tl (re_split m_material (Some c) cs))"
      by (simp add: tl_cons_hd re_split_not_Nil)
    from 2(1)[OF None this] show ?thesis
      by (auto simp: sublist_Cons_right)
  next
    case (Some k)
    then obtain n where k: "k = Suc n"
      using m_material_not_0[of p "c # cs"] by (cases k) auto
    let ?s' = "drop n cs"
    let ?q = "Some ((c # cs) ! n)"
    from m_material_Some[OF Some] obtain ws where ws: "ws \<noteq> []" "\<forall>c\<in>set ws. is_space c"
      "c # cs = ''material'' @ ws @ ?s'" "?s' = [] \<or> \<not> is_space (hd ?s')"
      unfolding k by auto
    from 2(4) Some k have x: "x \<in> set (re_split m_material ?q ?s')" by simp
    then have "x = hd (re_split m_material ?q ?s') \<or> x \<in> set (tl (re_split m_material ?q ?s'))"
      by (cases "re_split m_material ?q ?s'") auto
    then show ?thesis
    proof
      assume hx: "x = hd (re_split m_material ?q ?s')"
      then have px: "prefix x ?s'" by (simp add: hd_re_split_prefix)
      then obtain r where r: "?s' = x @ r" by (auto simp: prefix_def)
      have "x = [] \<or> \<not> is_space (hd x)"
        using ws(4) r by (cases x) auto
      moreover have "sublist (''material'' @ ws @ x) (c # cs)"
      proof -
        have "c # cs = [] @ (''material'' @ ws @ x) @ r"
          using ws(3) r by simp
        then show ?thesis unfolding sublist_def by blast
      qed
      ultimately show ?thesis using ws by blast
    next
      assume "x \<in> set (tl (re_split m_material ?q ?s'))"
      from 2(3)[OF Some k this] obtain ws' where
        a: "x = [] \<or> \<not> is_space (hd x)" and b: "ws' \<noteq> []" "\<forall>c\<in>set ws'. is_space c"
        "sublist (''material'' @ ws' @ x) ?s'" by blast
      have "sublist ?s' (c # cs)"
        by (metis sublist_drop sublist_Cons_right)
      with b(3) have "sublist (''material'' @ ws' @ x) (c # cs)"
        by (rule sublist_order.order.trans)
      with a b show ?thesis by blast
    qed
  qed
qed


lemma parse_block_shape:
  assumes "b \<in> set (parse_material_file content)"
  shows "\<exists>mat ws. b = ''material '' @ mat \<and> (mat = [] \<or> \<not> is_space (hd mat)) \<and>
     ws \<noteq> [] \<and> (\<forall>c\<in>set ws. is_space c) \<and> sublist (''material'' @ ws @ mat) content"
  using assms re_split_material_pieces[of _ None content]
  unfolding parse_material_file_def by auto

lemma strip_prefix: "prefix (rev (dropWhile P (rev xs))) xs"
  by (metis prefixI rev_append rev_rev_ident takeWhile_dropWhile_id)

lemma name_match_block:
  assumes "mat = [] \<or> \<not> is_space (hd mat)"
  shows "name_match (''material '' @ mat) = name_groups mat"
proof -
  have "takeWhile is_space (CHR '' '' # mat) = '' ''"
    using assms by (cases mat) (auto simp: is_space_def)
  then show ?thesis
    by (simp add: name_match_def split: option.splits)
qed

lemma name_groups_Some_iff:
  "(\<exists>g. name_groups s = Some g) \<longleftrightarrow> s \<noteq> [] \<and> hd s \<noteq> CHR 0x0A \<and> hd s \<noteq> CHR ''{''"
  by (cases s) (auto simp: name_groups_def Let_def)

lemma name_groups_strip_prefix:
  assumes "name_groups s = Some (g1, g2)" "\<not> is_space (hd s)"
  shows "prefix (strip g1) s \<and> strip g1 \<noteq> []"
proof -
  from assms(1) have g1: "g1 = takeWhile (\<lambda>c. c \<noteq> CHR 0x0A \<and> c \<noteq> CHR ''{'') s" "g1 \<noteq> []"
    by (auto simp: name_groups_def Let_def split: if_splits)
  then have "hd g1 = hd s" by (cases s) (auto split: if_splits)
  with assms(2) g1(2) have dw: "dropWhile is_space g1 = g1" by (cases g1) auto
  have "prefix (strip g1) g1" unfolding strip_def dw by (rule strip_prefix)
  moreover have "prefix g1 s" unfolding g1(1) by (metis prefixI takeWhile_dropWhile_id)
  moreover have "strip g1 \<noteq> []"
    unfolding strip_def dw using g1(2) assms(2) \<open>hd g1 = hd s\<close>
    by (cases g1) (auto simp: dropWhile_append)
  ultimately show ?thesis using prefix_order.trans by blast
qed



section \<open>Openers: scanning against counting positions\<close>

lemma space_not_word: "is_space c \<Longrightarrow> \<not> is_word c"
  by (auto simp: is_space_def is_word_def)

lemma brace_class [simp]: "\<not> is_space CHR ''{''" "\<not> is_word CHR ''{''"
  "\<not> is_space CHR ''}''" "\<not> is_word CHR ''}''"
  by (auto simp: is_space_def is_word_def)

lemma m_opener_Some:
  assumes "m_opener kw p s = Some k"
  shows "boundary p s \<and> (\<exists>ws r. s = kw @ ws @ CHR ''{'' # r \<and> (\<forall>c\<in>set ws. is_space c) \<and>
           k = length kw + length ws + 1)"
proof -
  let ?d = "drop (length kw) s"
  let ?ws = "takeWhile is_space ?d"
  from assms have b: "boundary p s" and pk: "prefix kw s"
    and pb: "prefix ''{'' (dropWhile is_space ?d)" and k: "k = length kw + length ?ws + 1"
    by (auto simp: m_opener_def split: if_splits)
  from pk have s: "s = kw @ ?d" by (auto simp: prefix_def)
  from pb obtain r where r: "dropWhile is_space ?d = CHR ''{'' # r" by (auto simp: prefix_def)
  have "?d = ?ws @ CHR ''{'' # r" using r by (metis takeWhile_dropWhile_id)
  with s have "s = kw @ ?ws @ CHR ''{'' # r" by metis
  moreover have "\<forall>c\<in>set ?ws. is_space c" by (auto dest: set_takeWhileD)
  ultimately show ?thesis using b k by blast
qed

lemma m_opener_intro:
  assumes "boundary p (kw @ ws @ CHR ''{'' # r)" "\<forall>c\<in>set ws. is_space c"
  shows "m_opener kw p (kw @ ws @ CHR ''{'' # r) = Some (length kw + length ws + 1)"
proof -
  have "takeWhile is_space (ws @ CHR ''{'' # r) = ws" "dropWhile is_space (ws @ CHR ''{'' # r) = CHR ''{'' # r"
    using assms(2) by simp_all
  then show ?thesis using assms(1) by (simp add: m_opener_def)
qed

lemma m_opener_word_opt:
  "word_opt p = word_opt q \<Longrightarrow> m_opener kw p s = m_opener kw q s"
  by (simp add: m_opener_def boundary_def)

lemma word_kw_pass [simp]: "word_kw ''pass''" and word_kw_tu [simp]: "word_kw ''texture_unit''"
  by (simp_all add: word_kw_def is_word_def)

lemma m_opener_at:
  assumes "word_kw kw" "m_opener kw p s \<noteq> None"
  shows "\<not> word_opt p \<and> s \<noteq> [] \<and> is_word (hd s)"
proof -
  from assms(2) obtain k where "m_opener kw p s = Some k" by auto
  from m_opener_Some[OF this] obtain ws r where b: "boundary p s" and s: "s = kw @ ws @ CHR ''{'' # r"
    by blast
  from assms(1) obtain c cs where kw: "kw = c # cs" "is_word c" by (cases kw) (auto simp: word_kw_def)
  with s b show ?thesis by (auto simp: boundary_def)
qed

text \<open>No opener starts inside an opener.\<close>

lemma m_opener_inside:
  assumes w: "word_kw kw" and m: "m_opener kw p s = Some k" and j: "0 < j" "j < k"
  shows "m_opener kw (Some (s ! (j - 1))) (drop j s) = None"
proof (rule ccontr)
  assume a: "m_opener kw (Some (s ! (j - 1))) (drop j s) \<noteq> None"
  from m_opener_Some[OF m] obtain ws r where s: "s = kw @ ws @ CHR ''{'' # r"
    and ws: "\<forall>c\<in>set ws. is_space c" and k: "k = length kw + length ws + 1" by blast
  from m_opener_at[OF w a] have nw: "\<not> is_word (s ! (j - 1))" and dj: "drop j s \<noteq> []"
    and wj: "is_word (hd (drop j s))" by (auto simp: word_opt_def)
  from dj have jl: "j < length s" by simp
  then have hj: "hd (drop j s) = s ! j" by (simp add: hd_drop_conv_nth)
  show False
  proof (cases "j < length kw")
    case True
    then have "j - 1 < length kw" by simp
    then have "s ! (j - 1) = kw ! (j - 1)" unfolding s by (simp only: nth_append if_True)
    moreover have "is_word (kw ! (j - 1))" using w True by (auto simp: word_kw_def)
    ultimately show False using nw by simp
  next
    case False
    have "s = (kw @ ws @ ''{'') @ r" unfolding s by simp
    moreover have "j < length (kw @ ws @ ''{'')" using j k by simp
    ultimately have "s ! j = (kw @ ws @ ''{'') ! j" by (simp only: nth_append if_True)
    with False have "s ! j = (ws @ ''{'') ! (j - length kw)" by (simp add: nth_append)
    moreover have "j - length kw < length (ws @ ''{'')" using False j k by simp
    then have "(ws @ ''{'') ! (j - length kw) \<in> set (ws @ ''{'')" by (rule nth_mem)
    ultimately have "is_space (s ! j) \<or> s ! j = CHR ''{''" using ws by auto
    with wj hj show False by (auto dest: space_not_word)
  qed
qed

lemma count_matches_skip:
  assumes "\<And>j. 0 < j \<Longrightarrow> j \<le> n \<Longrightarrow> m (Some (s ! (j - 1))) (drop j s) = None" "n < length s"
  shows "count_matches m (Some (s ! 0)) (drop 1 s) = count_matches m (Some (s ! n)) (drop (Suc n) s)"
  using assms
proof (induction n)
  case 0
  then show ?case by simp
next
  case (Suc n)
  then have IH: "count_matches m (Some (s ! 0)) (drop 1 s) = count_matches m (Some (s ! n)) (drop (Suc n) s)"
    by simp
  from Suc.prems have d: "drop (Suc n) s = s ! Suc n # drop (Suc (Suc n)) s"
    by (simp add: Cons_nth_drop_Suc)
  from Suc.prems(1)[of "Suc n"] have "m (Some (s ! n)) (drop (Suc n) s) = None" by simp
  then show ?case unfolding IH by (subst d, subst count_matches.simps) (simp add: d[symmetric])
qed

lemma m_opener_Nil [simp]: "word_kw kw \<Longrightarrow> m_opener kw p [] = None"
  by (auto simp: m_opener_def word_kw_def)

lemma m_opener_length:
  "m_opener kw p s = Some k \<Longrightarrow> 0 < k \<and> k \<le> length s"
  by (drule m_opener_Some) auto

lemma findall_count_matches:
  assumes w: "word_kw kw"
  shows "length (re_findall (m_opener kw) p s) = count_matches (m_opener kw) p s"
proof (induction "m_opener kw" p s rule: re_findall.induct)
  case (1 p)
  then show ?case using w by simp
next
  case (2 p c cs)
  show ?case
  proof (cases "m_opener kw p (c # cs)")
    case None
    with 2(1) show ?thesis by simp
  next
    case (Some k)
    from m_opener_length[OF Some] obtain n where k: "k = Suc n" and n: "n < length (c # cs)"
      by (cases k) auto
    have "count_matches (m_opener kw) (Some ((c # cs) ! 0)) (drop 1 (c # cs)) =
          count_matches (m_opener kw) (Some ((c # cs) ! n)) (drop (Suc n) (c # cs))"
    proof (rule count_matches_skip)
      fix j assume "0 < j" "j \<le> n"
      then show "m_opener kw (Some ((c # cs) ! (j - 1))) (drop j (c # cs)) = None"
        using m_opener_inside[OF w Some, of j] k by simp
    qed (rule n)
    then have "count_matches (m_opener kw) (Some c) cs =
          count_matches (m_opener kw) (Some ((c # cs) ! n)) (drop n cs)" by simp
    with 2(3)[OF Some k] Some k show ?thesis by simp
  qed
qed

text \<open>Counting positions by index.\<close>

lemma opens_block_m_opener:
  assumes w: "word_kw kw"
  shows "opens_block kw (u @ c # cs) (length u) \<longleftrightarrow> m_opener kw (last_opt None u) (c # cs) \<noteq> None"
proof -
  have hw: "prefix kw (c # cs) \<Longrightarrow> is_word c"
    using w by (cases kw) (auto simp: word_kw_def)
  have l: "u \<noteq> [] \<Longrightarrow> (u @ c # cs) ! (length u - 1) = last u"
    by (simp add: nth_append last_conv_nth)
  show ?thesis
    using hw l by (auto simp: opens_block_def m_opener_def boundary_def last_opt_def word_opt_def)
qed

lemma count_matches_index:
  assumes w: "word_kw kw"
  shows "count_matches (m_opener kw) (last_opt None u) s =
     length (filter (opens_block kw (u @ s)) [length u..<length (u @ s)])"
proof (induction s arbitrary: u)
  case Nil
  then show ?case by simp
next
  case (Cons c cs)
  have r: "[length u..<length (u @ c # cs)] = length u # [length (u @ [c])..<length ((u @ [c]) @ cs)]"
    by (simp add: upt_rec)
  have lo: "last_opt None (u @ [c]) = Some c" by (simp add: last_opt_def)
  from Cons[of "u @ [c]"] show ?case
    unfolding r using opens_block_m_opener[OF w, of u c cs] by (simp add: lo)
qed

lemma findall_opener_count:
  "word_kw kw \<Longrightarrow> length (re_findall (m_opener kw) None t) = opener_count kw t"
  using count_matches_index[of kw "[]" t] findall_count_matches[of kw None t]
  by (simp add: opener_count_def last_opt_def)

lemma find_char_ge: "- 1 \<le> find_char x s"
  by (induction s) (auto simp: Let_def)

lemma find_char_neg_iff: "find_char x s < 0 \<longleftrightarrow> x \<notin> set s"
  using find_char_ge[of x] by (induction s) (auto simp: Let_def)

lemma find_char_append: "x \<notin> set a \<Longrightarrow> find_char x (a @ x # b) = int (length a)"
  by (induction a) (auto simp: Let_def)

lemma find_char_split:
  assumes "x \<in> set s"
  shows "\<exists>a b. s = a @ x # b \<and> x \<notin> set a \<and> find_char x s = int (length a)"
proof -
  from split_list_first[OF assms] obtain a b where "s = a @ x # b" "x \<notin> set a" by blast
  then show ?thesis using find_char_append by blast
qed

lemma count_matches_pos:
  "0 < count_matches m p s \<Longrightarrow> \<exists>u v. s = u @ v \<and> v \<noteq> [] \<and> m (last_opt p u) v \<noteq> None"
proof (induction s arbitrary: p)
  case Nil
  then show ?case by simp
next
  case (Cons c cs)
  show ?case
  proof (cases "m p (c # cs) = None")
    case False
    then have "c # cs = [] @ (c # cs) \<and> c # cs \<noteq> [] \<and> m (last_opt p []) (c # cs) \<noteq> None"
      by (simp add: last_opt_def)
    then show ?thesis by blast
  next
    case True
    with Cons.prems have "0 < count_matches m (Some c) cs" by simp
    from Cons.IH[OF this] obtain u v where uv: "cs = u @ v" "v \<noteq> []" "m (last_opt (Some c) u) v \<noteq> None"
      by blast
    have "last_opt (Some c) u = last_opt p (c # u)" by (simp add: last_opt_def)
    with uv have "c # cs = (c # u) @ v \<and> v \<noteq> [] \<and> m (last_opt p (c # u)) v \<noteq> None" by simp
    then show ?thesis by blast
  qed
qed

lemma count_matches_zero:
  "count_matches m p (u @ v) = 0 \<Longrightarrow> v \<noteq> [] \<Longrightarrow> m (last_opt p u) v = None"
proof (induction u arbitrary: p)
  case Nil
  then show ?case by (cases v) (auto simp: last_opt_def split: if_splits)
next
  case (Cons c u)
  from Cons.prems have "count_matches m (Some c) (u @ v) = 0" by simp
  from Cons.IH[OF this Cons.prems(2)] show ?case by (cases u) (simp_all add: last_opt_def)
qed

lemma eligible_has_brace:
  assumes "is_eligible_material t"
  shows "CHR ''{'' \<in> set t"
proof -
  from assms have "texture_unit_count t = 1"
    by (auto simp: is_eligible_material_def split: if_splits)
  then have "0 < count_matches (m_opener ''texture_unit'') None t"
    by (simp add: texture_unit_count_def findall_count_matches)
  from count_matches_pos[OF this] obtain u v k where t: "t = u @ v"
    and "m_opener ''texture_unit'' (last_opt None u) v = Some k" by auto
  from m_opener_Some[OF this(2)] show ?thesis unfolding t by auto
qed

lemma transform_material_Inr_iff:
  "(\<exists>out. transform_material t = Inr out) \<longleftrightarrow> name_match t \<noteq> None"
  by (auto simp: transform_material_def Let_def split: option.splits)

section \<open>The blocks of a file\<close>

text \<open>
  C10. Every block that \<open>parse_material_file\<close> returns begins with \<open>material\<close> and one
  space, whatever white space followed the keyword in the file: no further white space
  follows that space. This is the shape the slice before the brace relies on: when the
  name pattern matches the block, \<open>material\<close>, a space and the stripped name are a
  prefix of the block, so the index \<open>len("material " + name)\<close> is the end of the name.
\<close>

theorem parse_material_file_prefix:
  "b \<in> set (parse_material_file content) \<Longrightarrow>
     prefix ''material '' b \<and>
     \<not> (\<exists>c. is_space c \<and> prefix (''material '' @ [c]) b) \<and>
     (\<forall>g1 g2. name_match b = Some (g1, g2) \<longrightarrow> prefix (''material '' @ strip g1) b)"
proof -
  assume "b \<in> set (parse_material_file content)"
  from parse_block_shape[OF this] obtain mat where
    b: "b = ''material '' @ mat" and mat: "mat = [] \<or> \<not> is_space (hd mat)" by blast
  have 1: "prefix ''material '' b" unfolding b by simp
  have 2: "\<not> (\<exists>c. is_space c \<and> prefix (''material '' @ [c]) b)"
    using mat unfolding b by (cases mat) auto
  have 3: "prefix (''material '' @ strip g1) b" if "name_match b = Some (g1, g2)" for g1 g2
  proof -
    from that have g: "name_groups mat = Some (g1, g2)"
      unfolding b using name_match_block[OF mat] by simp
    then have "mat \<noteq> []" by (auto simp: name_groups_def)
    with mat have "\<not> is_space (hd mat)" by simp
    from name_groups_strip_prefix[OF g this] show ?thesis
      unfolding b by simp
  qed
  from 1 2 3 show ?thesis by blast
qed

theorem parse_material_file_prefix_witness:
  "''material Foo {}'' \<in> set (parse_material_file (''material'' @ [CHR 0x09, CHR 0x0A] @ ''Foo {}'')) \<and>
   prefix ''material '' ''material Foo {}'' \<and>
   name_match ''material Foo {}'' = Some (''Foo '', []) \<and>
   prefix (''material '' @ strip ''Foo '') ''material Foo {}''"
  using parse_material_file_prefix[of "''material Foo {}''" "''material'' @ [CHR 0x09, CHR 0x0A] @ ''Foo {}''"]
  by (simp add: eval_defs)


section \<open>The run on a folder without material files\<close>

text \<open>
  C5, as stated, fails: for a folder that does not exist the constructor raises (the
  run never starts and prints nothing), and for a folder without material files the
  constructor has created the backup folder before the run looks for files.
\<close>

theorem main_reports_or_raises_counterexample:
  "main Absent = Inl FileNotFoundError \<and>
   main (Folder [(''notes.txt'', RegFile ''x'')]) =
     Inr \<lparr>input_folder = [(''notes.txt'', RegFile ''x''), (''old_materials'', Directory [])],
          processed_files = 0, processed_materials = 0, updated_materials = 0,
          console = [Scanning, BackupFolder, NoFilesFound],
          fs_log = [Mkdir ''old_materials'']\<rparr>"
  by (simp add: main_def init_def run_def new_updater_def glob_material_def suffix_def)


text \<open>
  C5, amended. For a folder that exists, holds no entry ending in \<open>.material\<close>, and
  holds no regular file named \<open>old_materials\<close>, the script prints the message and
  returns: no file is read or written, no counter moves, and the only change to the
  folder is the backup folder, created by the constructor when it was absent. For a
  folder that does not exist the constructor raises \<open>FileNotFoundError\<close>.
\<close>

theorem main_no_material_files:
  "glob_material es = [] \<Longrightarrow> (\<forall>x. map_of es ''old_materials'' \<noteq> Some (RegFile x)) \<Longrightarrow>
   main (Folder es) =
     Inr ((new_updater
            (if map_of es ''old_materials'' = None then es @ [(''old_materials'', Directory [])] else es)
            (if map_of es ''old_materials'' = None then [Mkdir ''old_materials''] else []))
          \<lparr>console := [Scanning, BackupFolder, NoFilesFound]\<rparr>) \<and>
   main Absent = Inl FileNotFoundError"
  by (auto simp: main_def init_def run_def new_updater_def glob_material_def suffix_def
      split: option.splits entry.splits)

theorem main_no_material_files_witness:
  "glob_material [(''notes.txt'', RegFile ''x'')] = [] \<and>
   main (Folder [(''notes.txt'', RegFile ''x'')]) =
     Inr ((new_updater [(''notes.txt'', RegFile ''x''), (''old_materials'', Directory [])]
            [Mkdir ''old_materials''])\<lparr>console := [Scanning, BackupFolder, NoFilesFound]\<rparr>)"
  using main_no_material_files[of "[(''notes.txt'', RegFile ''x'')]"]
  by (simp add: glob_material_def suffix_def)
section \<open>Eligibility\<close>

text \<open>
  C1. \<open>is_eligible_material\<close> holds of a text exactly when (1) none of
  \<open>vertex_program_ref\<close>, \<open>fragment_program_ref\<close> and \<open>tex_coord_set\<close> is a substring
  of it, (2) the number of positions at which the word \<open>pass\<close> starts and is followed,
  after white space only, by \<open>{\<close> is 1 or 2, and (3) the number of such positions for
  \<open>texture_unit\<close> is 1. The scan of \<open>re.findall\<close> skips the positions inside a match;
  no opener starts there, so it finds every position.
\<close>

theorem is_eligible_material_iff:
  "is_eligible_material t \<longleftrightarrow>
     (\<not> sublist ''vertex_program_ref'' t \<and> \<not> sublist ''fragment_program_ref'' t \<and>
      \<not> sublist ''tex_coord_set'' t) \<and>
     (opener_count ''pass'' t = 1 \<or> opener_count ''pass'' t = 2) \<and>
     opener_count ''texture_unit'' t = 1"
  by (auto simp: is_eligible_material_def pass_count_def texture_unit_count_def
      findall_opener_count contains_sublist)


theorem is_eligible_material_iff_witness:
  "is_eligible_material ''material A { pass { texture_unit { } } }'' \<and>
   (\<not> sublist ''vertex_program_ref'' ''material A { pass { texture_unit { } } }'' \<and>
    \<not> sublist ''fragment_program_ref'' ''material A { pass { texture_unit { } } }'' \<and>
    \<not> sublist ''tex_coord_set'' ''material A { pass { texture_unit { } } }'') \<and>
   (opener_count ''pass'' ''material A { pass { texture_unit { } } }'' = 1 \<or>
    opener_count ''pass'' ''material A { pass { texture_unit { } } }'' = 2) \<and>
   opener_count ''texture_unit'' ''material A { pass { texture_unit { } } }'' = 1"
proof -
  have "is_eligible_material ''material A { pass { texture_unit { } } }''"
    by (simp add: eval_defs)
  then show ?thesis
    using is_eligible_material_iff[of "''material A { pass { texture_unit { } } }''"] by blast
qed

section \<open>When the transformation returns\<close>

text \<open>
  C9, as stated, fails: the block \<open>material {pass{texture_unit{}}}\<close> is eligible, the name
  pattern does not match it and \<open>name_match.group(1)\<close> raises; and an eligible block need
  not hold any \<open>}\<close>, in which case \<open>rfind\<close> returns -1.
\<close>

theorem transform_material_returns_counterexample:
  "is_eligible_material ''material {pass{texture_unit{}}}'' \<and>
   transform_material ''material {pass{texture_unit{}}}'' = Inl AttributeError \<and>
   is_eligible_material ''material A{pass{texture_unit{'' \<and>
   rfind_char CHR ''}'' ''material A{pass{texture_unit{'' = - 1"
  by (simp add: eval_defs)

text \<open>
  C9, amended. For an eligible text the transformation returns exactly when the name
  pattern matches it and raises otherwise; for a block that \<open>parse_material_file\<close> returns
  the pattern matches exactly when the block does not start with \<open>material {\<close>. The first
  \<open>{\<close> of an eligible text is always found.
\<close>

theorem transform_material_returns:
  "is_eligible_material t \<Longrightarrow>
     ((\<exists>out. transform_material t = Inr out) \<longleftrightarrow> name_match t \<noteq> None) \<and>
     0 \<le> find_char CHR ''{'' t \<and>
     (\<forall>content. t \<in> set (parse_material_file content) \<longrightarrow>
        (name_match t \<noteq> None \<longleftrightarrow> \<not> prefix ''material {'' t))"
proof -
  assume e: "is_eligible_material t"
  have 1: "(\<exists>out. transform_material t = Inr out) \<longleftrightarrow> name_match t \<noteq> None"
    by (rule transform_material_Inr_iff)
  have 2: "0 \<le> find_char CHR ''{'' t"
    using eligible_has_brace[OF e] find_char_neg_iff[of "CHR ''{''" t] by simp
  have 3: "name_match t \<noteq> None \<longleftrightarrow> \<not> prefix ''material {'' t"
    if "t \<in> set (parse_material_file content)" for content
  proof -
    from parse_block_shape[OF that] obtain mat where
      t: "t = ''material '' @ mat" and mat: "mat = [] \<or> \<not> is_space (hd mat)" by blast
    have "mat \<noteq> []"
    proof
      assume "mat = []"
      with e t have "is_eligible_material ''material ''" by simp
      then show False by (simp add: eval_defs)
    qed
    with mat have ns: "\<not> is_space (hd mat)" by simp
    then have "hd mat \<noteq> CHR 0x0A" by (auto simp: is_space_def)
    with \<open>mat \<noteq> []\<close> have "(\<exists>g. name_groups mat = Some g) \<longleftrightarrow> hd mat \<noteq> CHR ''{''"
      using name_groups_Some_iff[of mat] by blast
    moreover have "prefix ''material {'' t \<longleftrightarrow> hd mat = CHR ''{''"
      unfolding t using \<open>mat \<noteq> []\<close> by (cases mat) auto
    ultimately show ?thesis
      unfolding t name_match_block[OF mat] by auto
  qed
  from 1 2 3 show ?thesis by blast
qed

theorem transform_material_returns_witness:
  "is_eligible_material ''material A{pass{texture_unit{}}}'' \<and>
   transform_material ''material A{pass{texture_unit{}}}'' =
     Inr ''material A: RoR/Managed_Mats/Base{pass BaseRender{texture_unit Diffuse_Map{}}}'' \<and>
   name_match ''material A{pass{texture_unit{}}}'' = Some (''A'', []) \<and>
   find_char CHR ''{'' ''material A{pass{texture_unit{}}}'' = 10 \<and>
   ''material A{pass{texture_unit{}}}'' \<in> set (parse_material_file ''material  A{pass{texture_unit{}}}'') \<and>
   \<not> prefix ''material {'' ''material A{pass{texture_unit{}}}''"
  using transform_material_returns[of "''material A{pass{texture_unit{}}}''"]
  by (simp add: eval_defs)

section \<open>Only the renames change the inner content\<close>

lemma renames_only_trans:
  "renames_only b c \<Longrightarrow> renames_only a b \<Longrightarrow> renames_only a c"
  by (induction rule: renames_only.induct) (auto intro: renames_only.intros)

lemma renames_only_context:
  "renames_only s t \<Longrightarrow> renames_only (u @ s @ v) (u @ t @ v)"
proof (induction rule: renames_only.induct)
  case (same s)
  show ?case by (rule renames_only.same)
next
  case (append s a kw b suf)
  from append.IH have "renames_only (u @ s @ v) ((u @ a) @ kw @ (b @ v))" by simp
  from renames_only.append[OF this append.hyps(2)]
  show ?case by simp
qed

lemma renames_only_keyword:
  "(kw, suf) \<in> set renamings \<Longrightarrow> renames_only (kw @ b) (kw @ suf @ b)"
  using renames_only.append[of "kw @ b" "[]" kw b suf] renames_only.same[of "kw @ b"] by simp

lemma renames_only_append2:
  assumes "renames_only x x'" "renames_only y y'"
  shows "renames_only (x @ y) (x' @ y')"
proof -
  from renames_only_context[OF assms(1), of "[]" y] have 1: "renames_only (x @ y) (x' @ y)" by simp
  from renames_only_context[OF assms(2), of x' "[]"] have 2: "renames_only (x' @ y) (x' @ y')" by simp
  from renames_only_trans[OF 2 1] show ?thesis .
qed

text \<open>A substitution whose replacements only rename, only renames.\<close>

lemma re_sub_renames_only:
  assumes "\<And>p s n. m p s = Some n \<Longrightarrow>
     0 < n \<and> n \<le> length s \<and> renames_only (take n s) (repl (take n s))"
  shows "renames_only s (re_sub m repl p s)"
  using assms
proof (induction m repl p s rule: re_sub.induct)
  case (1 m repl p)
  from 1[of p "[]"] show ?case by (auto split: option.splits intro: renames_only.same)
next
  case (2 m repl p c cs)
  note H = 2(4)
  show ?case
  proof (cases "m p (c # cs)")
    case None
    from 2(1)[OF None H] have "renames_only cs (re_sub m repl (Some c) cs)" .
    from renames_only_append2[OF renames_only.same[of "[c]"] this] None
    show ?thesis by simp
  next
    case (Some k)
    from H[OF Some] obtain n where k: "k = Suc n" and n: "Suc n \<le> length (c # cs)"
      and r: "renames_only (take (Suc n) (c # cs)) (repl (take (Suc n) (c # cs)))"
      by (cases k) auto
    from 2(3)[OF Some k H]
    have "renames_only (drop n cs) (re_sub m repl (Some ((c # cs) ! n)) (drop n cs))" .
    from renames_only_append2[OF r this]
    have "renames_only (take (Suc n) (c # cs) @ drop n cs)
       (repl (take (Suc n) (c # cs)) @ re_sub m repl (Some ((c # cs) ! n)) (drop n cs))" .
    moreover have "take (Suc n) (c # cs) @ drop n cs = c # cs"
      using append_take_drop_id[of "Suc n" "c # cs"] by simp
    ultimately have "renames_only (c # cs)
       (repl (take (Suc n) (c # cs)) @ re_sub m repl (Some ((c # cs) ! n)) (drop n cs))"
      by simp
    then show ?thesis using Some k by (simp del: take_Suc_Cons)
  qed
qed

lemma m_keyword_Some:
  "m_keyword kw p s = Some n \<Longrightarrow> n = length kw \<and> prefix kw s \<and> boundary p s \<and>
     prefix ''{'' (dropWhile is_space (drop (length kw) s))"
  by (auto simp: m_keyword_def split: if_splits)

lemma re_sub_keyword_renames_only:
  assumes "(kw, suf) \<in> set renamings"
  shows "renames_only s (re_sub (m_keyword kw) (\<lambda>_. kw @ suf) p s)"
proof (rule re_sub_renames_only)
  fix p s n assume m: "m_keyword kw p s = Some n"
  from assms have "kw \<noteq> []" by (auto simp: renamings_def)
  from m_keyword_Some[OF m] have n: "n = length kw" and pk: "prefix kw s" by auto
  then have "take n s = kw" by (auto simp: prefix_def)
  moreover have "renames_only kw (kw @ suf)"
    using renames_only_keyword[OF assms, of "[]"] by simp
  ultimately show "0 < n \<and> n \<le> length s \<and> renames_only (take n s) ((\<lambda>_. kw @ suf) (take n s))"
    using n pk \<open>kw \<noteq> []\<close> by (auto simp: prefix_def)
qed

lemma m_pass_block_Some:
  assumes "m_pass_block p s = Some n"
  shows "\<exists>ws body r. s = ''pass'' @ ws @ ''{'' @ body @ ''}'' @ r \<and> (\<forall>c\<in>set ws. is_space c) \<and>
     CHR ''}'' \<notin> set body \<and> n = 4 + length ws + 1 + length body + 1"
proof -
  let ?d = "drop 4 s"
  let ?ws = "takeWhile is_space ?d"
  let ?r = "dropWhile is_space ?d"
  let ?body = "takeWhile (\<lambda>c. c \<noteq> CHR ''}'') (tl ?r)"
  let ?r' = "dropWhile (\<lambda>c. c \<noteq> CHR ''}'') (tl ?r)"
  from assms have pp: "prefix ''pass'' s" and pb: "prefix ''{'' ?r" and pc: "prefix ''}'' ?r'"
    and n: "n = 4 + length ?ws + 1 + length ?body + 1"
    by (auto simp: m_pass_block_def Let_def split: if_splits)
  from pp have s: "s = ''pass'' @ ?d" by (auto simp: prefix_def)
  from pb have r: "?r = ''{'' @ tl ?r" by (auto simp: prefix_def)
  from pc obtain x where x: "?r' = ''}'' @ x" by (auto simp: prefix_def)
  have "tl ?r = ?body @ ?r'" by simp
  with x have t: "tl ?r = ?body @ ''}'' @ x" by simp
  have "?d = ?ws @ ?r" by simp
  with r t have "?d = ?ws @ ''{'' @ ?body @ ''}'' @ x" by metis
  with s have "s = ''pass'' @ ?ws @ ''{'' @ ?body @ ''}'' @ x" by metis
  moreover have "\<forall>c\<in>set ?ws. is_space c" by (auto dest: set_takeWhileD)
  moreover have "CHR ''}'' \<notin> set ?body" by (auto dest: set_takeWhileD)
  ultimately show ?thesis using n by blast
qed

lemma takeWhile_neq:
  "x \<notin> set a \<Longrightarrow> takeWhile (\<lambda>c. c \<noteq> x) (a @ x # r) = a \<and>
     dropWhile (\<lambda>c. c \<noteq> x) (a @ x # r) = x # r"
  by (induction a) auto

lemma m_pass_block_intro:
  assumes "\<forall>c\<in>set ws. is_space c" "CHR ''}'' \<notin> set body"
  shows "m_pass_block p (''pass'' @ ws @ ''{'' @ body @ ''}'' @ r) =
     Some (4 + length ws + 1 + length body + 1)"
proof -
  have 1: "takeWhile is_space (ws @ CHR ''{'' # body @ CHR ''}'' # r) = ws"
    "dropWhile is_space (ws @ CHR ''{'' # body @ CHR ''}'' # r) = CHR ''{'' # body @ CHR ''}'' # r"
    using assms(1) by simp_all
  have 2: "takeWhile (\<lambda>c. c \<noteq> CHR ''}'') (body @ CHR ''}'' # r) = body"
    "dropWhile (\<lambda>c. c \<noteq> CHR ''}'') (body @ CHR ''}'' # r) = CHR ''}'' # r"
    using takeWhile_neq[OF assms(2), of r] by simp_all
  show ?thesis by (simp add: m_pass_block_def 1 2)
qed

lemma replace_pass_span:
  "replace_pass (''pass'' @ x) =
     (if sublist ''texture_unit'' (''pass'' @ x) then ''pass BaseRender'' @ x else ''pass'' @ x)"
  by (simp add: replace_pass_def contains_sublist del: contains.simps)

lemma rename_passes_renames_only: "renames_only s (re_sub m_pass_block replace_pass p s)"
proof (rule re_sub_renames_only)
  fix p s n assume m: "m_pass_block p s = Some n"
  from m_pass_block_Some[OF m] obtain ws body r where
    s: "s = ''pass'' @ ws @ ''{'' @ body @ ''}'' @ r" and n: "n = 4 + length ws + 1 + length body + 1"
    by blast
  define x where "x = ''pass'' @ (ws @ ''{'' @ body @ ''}'')"
  have "s = x @ r" "n = length x" unfolding s n x_def by simp_all
  then have "take n s = x" by simp
  then have t: "take n s = ''pass'' @ (ws @ ''{'' @ body @ ''}'')" unfolding x_def .
  have "renames_only (''pass'' @ (ws @ ''{'' @ body @ ''}'')) (''pass'' @ '' BaseRender'' @ (ws @ ''{'' @ body @ ''}''))"
    by (rule renames_only_keyword) (simp add: renamings_def)
  then have "renames_only (take n s) (replace_pass (take n s))"
    unfolding t replace_pass_span by (auto intro: renames_only.same)
  then show "0 < n \<and> n \<le> length s \<and> renames_only (take n s) (replace_pass (take n s))"
    using n s by simp
qed

text \<open>The shape of a transformed block.\<close>

lemma name_backtrack_Some:
  "name_backtrack k s = Some g \<Longrightarrow> \<exists>j. name_groups (drop j s) = Some g"
  by (induction k) (auto split: option.splits)

lemma name_match_no_brace:
  assumes "name_match t = Some (g1, g2)"
  shows "CHR ''{'' \<notin> set (strip g1)"
proof -
  from assms obtain j s where "name_groups (drop j s) = Some (g1, g2)"
    by (auto simp: name_match_def split: if_splits dest: name_backtrack_Some)
  then have "g1 = takeWhile (\<lambda>c. c \<noteq> CHR 0x0A \<and> c \<noteq> CHR ''{'') (drop j s)"
    by (auto simp: name_groups_def Let_def split: if_splits)
  then have "CHR ''{'' \<notin> set g1" by (auto dest: set_takeWhileD)
  moreover have "set (strip g1) \<subseteq> set g1"
    unfolding strip_def by (auto dest!: set_dropWhileD)
  ultimately show ?thesis by blast
qed

lemma slice_index_nat [simp]: "slice_index s (int n) = min n (length s)"
  by (simp add: slice_index_def)

lemma py_slice_nat: "py_slice t (int i) (int j) = drop i (take j t)"
proof -
  have "py_slice t (int i) (int j) = drop (min i (length t)) (take (min j (length t)) t)"
    unfolding py_slice_def slice_index_nat by (simp only: drop_take)
  also have "take (min j (length t)) t = take j t" by (simp add: min_def)
  also have "drop (min i (length t)) (take j t) = drop i (take j t)" by (simp add: min_def)
  finally show ?thesis .
qed

lemma pre_brace_no_brace: "CHR ''{'' \<notin> set (pre_brace_of n t)"
proof (cases "CHR ''{'' \<in> set t")
  case False
  have "set (pre_brace_of n t) \<subseteq> set t"
    unfolding pre_brace_of_def py_slice_def Let_def
    by (meson set_drop_subset set_take_subset subset_trans)
  with False show ?thesis by blast
next
  case True
  from find_char_split[OF this] obtain a b where t: "t = a @ CHR ''{'' # b"
    and a: "CHR ''{'' \<notin> set a" and f: "find_char CHR ''{'' t = int (length a)" by blast
  let ?i = "length (''material '' @ n)"
  have "pre_brace_of n t = drop ?i (take (length a) t)"
    unfolding pre_brace_of_def Let_def f by (rule py_slice_nat)
  also have "take (length a) t = a" unfolding t by simp
  finally have "set (pre_brace_of n t) \<subseteq> set a" by (simp add: set_drop_subset)
  with a show ?thesis by blast
qed

lemma rfind_char_snoc: "rfind_char x (y @ [x]) = int (length y)"
  by (simp add: rfind_char_def)

lemma inner_of_wrapped:
  assumes "CHR ''{'' \<notin> set h"
  shows "inner_of (h @ ''{'' @ x @ ''}'') = x"
proof -
  have f: "find_char CHR ''{'' (h @ ''{'' @ x @ ''}'') = int (length h)"
    using find_char_append[OF assms, of "x @ ''}''"] by simp
  have r: "rfind_char CHR ''}'' (h @ ''{'' @ x @ ''}'') = int (length h + 1 + length x)"
    using rfind_char_snoc[of "CHR ''}''" "h @ ''{'' @ x"] by simp
  have 1: "int (length h) + 1 = int (length h + 1)" by simp
  show ?thesis
    unfolding inner_of_def Let_def f r 1 py_slice_nat by simp
qed

lemma transform_material_shape:
  assumes "transform_material t = Inr out"
  shows "\<exists>g1 g2. name_match t = Some (g1, g2) \<and>
     out = header_of g1 t @ ''{'' @
           rename_texture_unit (rename_passes (rename_technique (inner_of t))) @ ''}''"
  using assms by (auto simp: transform_material_def header_of_def Let_def split: option.splits)

lemma header_no_brace:
  "name_match t = Some (g1, g2) \<Longrightarrow> CHR ''{'' \<notin> set (header_of g1 t)"
  using name_match_no_brace[of t g1 g2] pre_brace_no_brace[of "strip g1" t]
  by (auto simp: header_of_def)

lemma inner_of_transformed:
  assumes "transform_material t = Inr out"
  shows "inner_of out = rename_texture_unit (rename_passes (rename_technique (inner_of t)))"
proof -
  from transform_material_shape[OF assms] obtain g1 g2 where n: "name_match t = Some (g1, g2)"
    and o: "out = header_of g1 t @ ''{'' @
           rename_texture_unit (rename_passes (rename_technique (inner_of t))) @ ''}''" by blast
  show ?thesis unfolding o by (rule inner_of_wrapped) (rule header_no_brace[OF n])
qed

text \<open>
  C6. For an eligible block that the transformation returns a block for, the inner
  content of the transformed block (between its first \<open>{\<close> and its last \<open>}\<close>) is reached
  from the inner content of the original by appending suffix identifiers to keywords and
  by nothing else: removing the appended \<open>BaseTechnique\<close>, \<open>BaseRender\<close> and
  \<open>Diffuse_Map\<close> again gives the original inner content.
\<close>

theorem transform_material_renames_only:
  "is_eligible_material t \<Longrightarrow> transform_material t = Inr out \<Longrightarrow>
     renames_only (inner_of t) (inner_of out)"
proof -
  assume "transform_material t = Inr out"
  from inner_of_transformed[OF this]
  have o: "inner_of out = rename_texture_unit (rename_passes (rename_technique (inner_of t)))" .
  let ?a = "rename_technique (inner_of t)"
  let ?b = "rename_passes ?a"
  have 1: "renames_only (inner_of t) ?a"
    unfolding rename_technique_def
    using re_sub_keyword_renames_only[of "''technique''" "'' BaseTechnique''" "inner_of t" None]
    by (simp add: renamings_def)
  have 2: "renames_only ?a ?b"
    unfolding rename_passes_def by (rule rename_passes_renames_only)
  have 3: "renames_only ?b (rename_texture_unit ?b)"
    unfolding rename_texture_unit_def
    using re_sub_keyword_renames_only[of "''texture_unit''" "'' Diffuse_Map''" ?b None]
    by (simp add: renamings_def)
  from renames_only_trans[OF 3 renames_only_trans[OF 2 1]] show ?thesis unfolding o .
qed

theorem transform_material_renames_only_witness:
  "is_eligible_material ''material A { technique { pass { texture_unit { } } } }'' \<and>
   transform_material ''material A { technique { pass { texture_unit { } } } }'' =
     Inr ''material A: RoR/Managed_Mats/Base { technique BaseTechnique { pass BaseRender { texture_unit Diffuse_Map { } } } }'' \<and>
   renames_only (inner_of ''material A { technique { pass { texture_unit { } } } }'')
     (inner_of ''material A: RoR/Managed_Mats/Base { technique BaseTechnique { pass BaseRender { texture_unit Diffuse_Map { } } } }'')"
proof -
  have e: "is_eligible_material ''material A { technique { pass { texture_unit { } } } }''"
    by (simp add: eval_defs)
  have t: "transform_material ''material A { technique { pass { texture_unit { } } } }'' =
     Inr ''material A: RoR/Managed_Mats/Base { technique BaseTechnique { pass BaseRender { texture_unit Diffuse_Map { } } } }''"
    by (simp add: eval_defs)
  from transform_material_renames_only[OF e t] e t show ?thesis by blast
qed

section \<open>The pass spans\<close>

lemma m_pass_block_prev: "m_pass_block p s = m_pass_block q s"
  by (simp add: m_pass_block_def)

lemma re_sub_pass_prev:
  "re_sub m_pass_block r p s = re_sub m_pass_block r q s"
proof (induction s arbitrary: p q rule: length_induct)
  case (1 s)
  show ?case
  proof (cases s)
    case Nil
    then show ?thesis by (simp add: m_pass_block_def)
  next
    case (Cons c cs)
    show ?thesis unfolding Cons
      by (subst (1 2) re_sub.simps) (simp add: m_pass_block_prev[of p _ q] split: option.splits nat.splits)
  qed
qed

lemma re_sub_skip:
  assumes "\<And>i. i < length pre \<Longrightarrow> m (last_opt p (take i pre)) (drop i (pre @ rest)) = None"
  shows "re_sub m r p (pre @ rest) = pre @ re_sub m r (last_opt p pre) rest"
  using assms
proof (induction pre arbitrary: p)
  case Nil
  then show ?case by (simp add: last_opt_def)
next
  case (Cons c pre)
  from Cons.prems[of 0] have n: "m p (c # pre @ rest) = None" by (simp add: last_opt_def)
  have "re_sub m r (Some c) (pre @ rest) = pre @ re_sub m r (last_opt (Some c) pre) rest"
  proof (rule Cons.IH)
    fix i assume i: "i < length pre"
    have "last_opt p (take (Suc i) (c # pre)) = last_opt (Some c) (take i pre)"
      by (cases "take i pre") (auto simp: last_opt_def)
    with Cons.prems[of "Suc i"] i
    show "m (last_opt (Some c) (take i pre)) (drop i (pre @ rest)) = None" by simp
  qed
  moreover have "last_opt (Some c) pre = last_opt p (c # pre)" by (simp add: last_opt_def)
  ultimately show ?case using n by simp
qed

lemma re_sub_match:
  assumes "m p (x @ rest) = Some (length x)" "x \<noteq> []"
  shows "re_sub m r p (x @ rest) = r x @ re_sub m r (Some (last x)) rest"
proof -
  from assms(2) obtain c cs where x: "x = c # cs" by (cases x) auto
  have l: "(c # cs @ rest) ! length cs = last (c # cs)"
    by (metis append_Cons last_conv_nth length_Cons list.discI diff_Suc_1 nth_append lessI)
  from assms(1) show ?thesis unfolding x by (simp add: l del: last.simps)
qed

lemma is_pass_span_iff:
  "is_pass_span span \<longleftrightarrow>
     (\<exists>ws body. span = ''pass'' @ ws @ ''{'' @ body @ ''}'' \<and> (\<forall>c\<in>set ws. is_space c) \<and>
        CHR ''}'' \<notin> set body)"
proof
  assume a: "is_pass_span span"
  let ?d = "drop 4 span"
  let ?r = "dropWhile is_space ?d"
  from a have pp: "prefix ''pass'' span" and pb: "prefix ''{'' ?r" and ne: "?r \<noteq> ''{''"
    and l: "last ?r = CHR ''}''" and nb: "CHR ''}'' \<notin> set (butlast (tl ?r))"
    by (auto simp: is_pass_span_def Let_def)
  from pp have s: "span = ''pass'' @ ?d" by (auto simp: prefix_def)
  from pb ne obtain x where r: "?r = ''{'' @ x" and x: "x \<noteq> []" by (auto simp: prefix_def)
  from l r x have "last x = CHR ''}''" by simp
  with x have "x = butlast x @ ''}''" by (metis append_butlast_last_id)
  with r have r': "?r = ''{'' @ butlast (tl ?r) @ ''}''" by simp
  have "?d = takeWhile is_space ?d @ ?r" by simp
  with r' have "?d = takeWhile is_space ?d @ ''{'' @ butlast (tl ?r) @ ''}''" by metis
  with s have "span = ''pass'' @ takeWhile is_space ?d @ ''{'' @ butlast (tl ?r) @ ''}''" by metis
  moreover have "\<forall>c\<in>set (takeWhile is_space ?d). is_space c" by (auto dest: set_takeWhileD)
  ultimately show "\<exists>ws body. span = ''pass'' @ ws @ ''{'' @ body @ ''}'' \<and> (\<forall>c\<in>set ws. is_space c) \<and>
        CHR ''}'' \<notin> set body" using nb by blast
next
  assume "\<exists>ws body. span = ''pass'' @ ws @ ''{'' @ body @ ''}'' \<and> (\<forall>c\<in>set ws. is_space c) \<and>
        CHR ''}'' \<notin> set body"
  then obtain ws body where s: "span = ''pass'' @ ws @ ''{'' @ body @ ''}''"
    and ws: "\<forall>c\<in>set ws. is_space c" and b: "CHR ''}'' \<notin> set body" by blast
  have "dropWhile is_space (ws @ CHR ''{'' # body @ ''}'') = CHR ''{'' # body @ ''}''"
    using ws by simp
  then show "is_pass_span span"
    unfolding s using b by (simp add: is_pass_span_def)
qed

lemma m_pass_block_span:
  assumes "is_pass_span span"
  shows "m_pass_block p (span @ rest) = Some (length span)"
proof -
  from assms obtain ws body where s: "span = ''pass'' @ ws @ ''{'' @ body @ ''}''"
    and ws: "\<forall>c\<in>set ws. is_space c" and b: "CHR ''}'' \<notin> set body"
    unfolding is_pass_span_iff by blast
  from m_pass_block_intro[OF ws b, of p rest] show ?thesis unfolding s by simp
qed

lemma m_pass_block_starts:
  assumes "m_pass_block p s = Some n"
  shows "starts_pass_span s"
proof -
  from m_pass_block_Some[OF assms] obtain ws body r where
    s: "s = ''pass'' @ ws @ ''{'' @ body @ ''}'' @ r" and ws: "\<forall>c\<in>set ws. is_space c"
    and b: "CHR ''}'' \<notin> set body" and n: "n = 4 + length ws + 1 + length body + 1" by blast
  define x where "x = ''pass'' @ ws @ ''{'' @ body @ ''}''"
  have "s = x @ r" "n = length x" unfolding s n x_def by simp_all
  then have "take n s = x" "n \<le> length s" by simp_all
  moreover have "is_pass_span x" unfolding is_pass_span_iff x_def using ws b by blast
  ultimately show ?thesis unfolding starts_pass_span_def by auto
qed

lemma starts_pass_span_prefix: "starts_pass_span s \<Longrightarrow> prefix ''pass'' s"
proof -
  assume "starts_pass_span s"
  then obtain n where "is_pass_span (take n s)" by (auto simp: starts_pass_span_def)
  then have "prefix ''pass'' (take n s)" by (simp add: is_pass_span_def)
  then show ?thesis using take_is_prefix prefix_order.trans by blast
qed

lemma replace_pass_drop:
  assumes "is_pass_span span"
  shows "replace_pass span =
     (if sublist ''texture_unit'' span then ''pass BaseRender'' @ drop 4 span else span)"
proof -
  from assms have "prefix ''pass'' span" by (simp add: is_pass_span_def)
  then obtain x where "span = ''pass'' @ x" by (auto simp: prefix_def)
  then show ?thesis using replace_pass_span[of x] by simp
qed

text \<open>
  C7. The step that renames passes (applied to the inner content after the technique
  step) works span by span. A text in which no span \<open>pass { ... }\<close> starts is left as it
  is. In a text \<open>pre @ span @ rest\<close> whose first span is \<open>span\<close> (no span starts inside
  \<open>pre\<close>), the text before the span is kept; the span has its leading \<open>pass\<close>, which is
  the first occurrence of \<open>pass\<close> in it, replaced by \<open>pass BaseRender\<close> exactly when
  \<open>texture_unit\<close> is a substring of the span, and is kept as it is otherwise; and the
  rest is treated in the same way.
\<close>

theorem rename_passes_spans:
  "((\<forall>i<length s. \<not> starts_pass_span (drop i s)) \<longrightarrow> rename_passes s = s) \<and>
   (is_pass_span span \<and> (\<forall>i<length pre. \<not> starts_pass_span (drop i (pre @ span @ rest))) \<longrightarrow>
      rename_passes (pre @ span @ rest) =
        pre @ (if sublist ''texture_unit'' span then ''pass BaseRender'' @ drop 4 span else span)
          @ rename_passes rest)"
proof (intro conjI impI)
  assume a: "\<forall>i<length s. \<not> starts_pass_span (drop i s)"
  have "re_sub m_pass_block replace_pass None (s @ []) =
        s @ re_sub m_pass_block replace_pass (last_opt None s) []"
  proof (rule re_sub_skip)
    fix i assume "i < length s"
    with a have "\<not> starts_pass_span (drop i (s @ []))" by simp
    then show "m_pass_block (last_opt None (take i s)) (drop i (s @ [])) = None"
      using m_pass_block_starts by (cases "m_pass_block (last_opt None (take i s)) (drop i (s @ []))") auto
  qed
  then show "rename_passes s = s" by (simp add: rename_passes_def m_pass_block_def)
next
  assume a: "is_pass_span span \<and> (\<forall>i<length pre. \<not> starts_pass_span (drop i (pre @ span @ rest)))"
  then have sp: "is_pass_span span" by simp
  then have ne: "span \<noteq> []" by (auto simp: is_pass_span_def)
  have 1: "re_sub m_pass_block replace_pass None (pre @ span @ rest) =
        pre @ re_sub m_pass_block replace_pass (last_opt None pre) (span @ rest)"
  proof (rule re_sub_skip)
    fix i assume "i < length pre"
    with a have "\<not> starts_pass_span (drop i (pre @ span @ rest))" by simp
    then show "m_pass_block (last_opt None (take i pre)) (drop i (pre @ span @ rest)) = None"
      using m_pass_block_starts
      by (cases "m_pass_block (last_opt None (take i pre)) (drop i (pre @ span @ rest))") auto
  qed
  have 2: "re_sub m_pass_block replace_pass (last_opt None pre) (span @ rest) =
        replace_pass span @ re_sub m_pass_block replace_pass (Some (last span)) rest"
    by (rule re_sub_match) (rule m_pass_block_span[OF sp], rule ne)
  have 3: "re_sub m_pass_block replace_pass (Some (last span)) rest = rename_passes rest"
    unfolding rename_passes_def by (rule re_sub_pass_prev)
  show "rename_passes (pre @ span @ rest) =
        pre @ (if sublist ''texture_unit'' span then ''pass BaseRender'' @ drop 4 span else span)
          @ rename_passes rest"
    unfolding replace_pass_drop[OF sp, symmetric] 3[symmetric] 2[symmetric] 
    using 1 by (simp add: rename_passes_def)
qed

theorem rename_passes_spans_witness:
  "rename_passes ''abc'' = ''abc'' \<and>
   is_pass_span ''pass { texture_unit { }'' \<and>
   rename_passes (''x '' @ ''pass { texture_unit { }'' @ '' } pass { }'') =
     ''x '' @ ''pass BaseRender { texture_unit { }'' @ rename_passes '' } pass { }''"
proof -
  have h1: "\<forall>i<length ''abc''. \<not> starts_pass_span (drop i ''abc'')"
    by (auto simp: All_less_Suc dest!: starts_pass_span_prefix)
  have h2: "is_pass_span ''pass { texture_unit { }''"
    by (simp add: is_pass_span_def is_space_def)
  have h3: "\<forall>i<length ''x ''. \<not> starts_pass_span (drop i (''x '' @ ''pass { texture_unit { }'' @ '' } pass { }''))"
    by (auto simp: All_less_Suc dest!: starts_pass_span_prefix)
  have h4: "sublist ''texture_unit'' ''pass { texture_unit { }''"
    unfolding contains_sublist[symmetric] by simp
  from rename_passes_spans[of "''abc''" "''pass { texture_unit { }''" "''x ''" "'' } pass { }''"]
    h1 h2 h3 h4 show ?thesis by simp
qed

section \<open>Processing a file\<close>

lemma materials_loop_Inr:
  "materials_loop u ups cnt ms = Inr (u', ups', cnt') \<Longrightarrow>
     ups' = ups @ map rewrite_block ms \<and>
     cnt' = cnt + int (length (filter is_eligible_material ms)) \<and>
     input_folder u' = input_folder u \<and> fs_log u' = fs_log u \<and> console u' = console u \<and>
     (\<forall>b\<in>set ms. is_eligible_material b \<longrightarrow> (\<exists>t. transform_material b = Inr t))"
proof (induction ms arbitrary: u ups cnt)
  case Nil
  then show ?case by simp
next
  case (Cons m ms)
  show ?case
  proof (cases "is_eligible_material m")
    case False
    with Cons.prems have "materials_loop (u\<lparr>processed_materials := processed_materials u + 1\<rparr>)
        (ups @ [m]) cnt ms = Inr (u', ups', cnt')" by (simp add: Let_def)
    from Cons.IH[OF this] False show ?thesis by (simp add: rewrite_block_def)
  next
    case True
    with Cons.prems obtain t where t: "transform_material m = Inr t"
      by (cases "transform_material m") (auto simp: Let_def)
    with True Cons.prems have "materials_loop
        (u\<lparr>processed_materials := processed_materials u + 1,
            updated_materials := updated_materials u + 1\<rparr>)
        (ups @ [t]) (cnt + 1) ms = Inr (u', ups', cnt')" by (simp add: Let_def)
    from Cons.IH[OF this] True t show ?thesis by (simp add: rewrite_block_def)
  qed
qed

lemma materials_loop_total:
  "(\<forall>b\<in>set ms. is_eligible_material b \<longrightarrow> (\<exists>t. transform_material b = Inr t)) \<Longrightarrow>
     \<exists>r. materials_loop u ups cnt ms = Inr r"
proof (induction ms arbitrary: u ups cnt)
  case Nil
  then show ?case by simp
next
  case (Cons m ms)
  then show ?case by (cases "is_eligible_material m") (auto simp: Let_def)
qed

lemma filter_pos_iff: "0 < int (length (filter P xs)) \<longleftrightarrow> (\<exists>x\<in>set xs. P x)"
  by (induction xs) auto

text \<open>What \<open>process_file\<close> returns, when it returns.\<close>

lemma process_file_Inr:
  assumes p: "process_file u f = Inr u'"
    and c: "map_of (input_folder u) f = Some (RegFile content)"
  shows "if \<exists>b\<in>set (parse_material_file content). is_eligible_material b
     then \<exists>d. map_of (input_folder u) ''old_materials'' = Some (Directory d) \<and>
       input_folder u' = AList.update f
          (RegFile (import_line @ join blank_line (map rewrite_block (parse_material_file content))))
          (AList.update ''old_materials'' (Directory (AList.update f content d)) (input_folder u)) \<and>
       fs_log u' = fs_log u @ [CopyToBackup f, WriteFile f]
     else input_folder u' = input_folder u \<and> fs_log u' = fs_log u"
proof -
  let ?u = "u\<lparr>console := console u @ [Processing f]\<rparr>"
  let ?ms = "parse_material_file content"
  from p c obtain r where l: "materials_loop ?u [] 0 ?ms = Inr r"
    by (cases "materials_loop ?u [] 0 ?ms") (auto simp: process_file_def Let_def)
  obtain u1 ups cnt where r: "r = (u1, ups, cnt)" by (cases r) auto
  from materials_loop_Inr[OF l[unfolded r]] have ups: "ups = map rewrite_block ?ms"
    and cnt: "cnt = int (length (filter is_eligible_material ?ms))"
    and u1: "input_folder u1 = input_folder u" "fs_log u1 = fs_log u" by simp_all
  show ?thesis
  proof (cases "\<exists>b\<in>set ?ms. is_eligible_material b")
    case True
    then have pos: "cnt > 0" unfolding cnt filter_pos_iff .
    from p c l r pos u1 obtain d where d: "map_of (input_folder u) ''old_materials'' = Some (Directory d)"
      by (auto simp: process_file_def Let_def split: option.splits entry.splits)
    from p c l r pos u1 d ups True show ?thesis
      by (auto simp: process_file_def Let_def)
  next
    case False
    then have "\<not> cnt > 0" unfolding cnt filter_pos_iff .
    with p c l r u1 False show ?thesis
      by (auto simp: process_file_def Let_def)
  qed
qed

lemma process_file_total:
  assumes c: "map_of (input_folder u) f = Some (RegFile content)"
    and d: "map_of (input_folder u) ''old_materials'' = Some (Directory d)"
    and t: "\<forall>b\<in>set (parse_material_file content).
              is_eligible_material b \<longrightarrow> (\<exists>t. transform_material b = Inr t)"
  shows "\<exists>u'. process_file u f = Inr u'"
proof -
  let ?u = "u\<lparr>console := console u @ [Processing f]\<rparr>"
  from materials_loop_total[OF t, of ?u "[]" 0] obtain u1 ups cnt where
    l: "materials_loop ?u [] 0 (parse_material_file content) = Inr (u1, ups, cnt)" by (metis prod_cases3)
  from materials_loop_Inr[OF l] have "input_folder u1 = input_folder u" by simp
  with c d l show ?thesis by (simp add: process_file_def Let_def)
qed







section \<open>A second run\<close>

lemma count_matches_skip_prefix:
  assumes "\<And>i. i < length u \<Longrightarrow> m (last_opt p (take i u)) (drop i (u @ v)) = None"
  shows "count_matches m p (u @ v) = count_matches m (last_opt p u) v"
  using assms
proof (induction u arbitrary: p)
  case Nil
  then show ?case by (simp add: last_opt_def)
next
  case (Cons c u)
  from Cons.prems[of 0] have n: "m p (c # u @ v) = None" by (simp add: last_opt_def)
  have "count_matches m (Some c) (u @ v) = count_matches m (last_opt (Some c) u) v"
  proof (rule Cons.IH)
    fix i assume i: "i < length u"
    have "last_opt p (take (Suc i) (c # u)) = last_opt (Some c) (take i u)"
      by (cases "take i u") (auto simp: last_opt_def)
    with Cons.prems[of "Suc i"] i
    show "m (last_opt (Some c) (take i u)) (drop i (u @ v)) = None" by simp
  qed
  moreover have "last_opt (Some c) u = last_opt p (c # u)" by (simp add: last_opt_def)
  ultimately show ?case using n by simp
qed

lemma count_matches_word_opt:
  "word_opt p = word_opt q \<Longrightarrow>
     count_matches (m_opener kw) p s = count_matches (m_opener kw) q s"
  by (cases s) (simp_all add: m_opener_word_opt[of p q])

lemma m_opener_snoc:
  assumes "m_opener kw p (y @ ''}'') \<noteq> None"
  shows "m_opener kw p y \<noteq> None"
proof -
  from assms obtain k where "m_opener kw p (y @ ''}'') = Some k" by auto
  from m_opener_Some[OF this] obtain ws r where b: "boundary p (y @ ''}'')"
    and s: "y @ ''}'' = kw @ ws @ CHR ''{'' # r" and ws: "\<forall>c\<in>set ws. is_space c" by blast
  have "r \<noteq> []"
  proof
    assume "r = []"
    with s have "last (y @ ''}'') = last (kw @ ws @ ''{'')" by simp
    then show False by simp
  qed
  then obtain r' where r: "r = r' @ [last r]" by (metis append_butlast_last_id)
  with s have "y @ ''}'' = (kw @ ws @ CHR ''{'' # r') @ [last r]" by simp
  then have y: "y = kw @ ws @ CHR ''{'' # r'" by (simp only: append1_eq_conv)
  then have "y \<noteq> []" by simp
  with b have "boundary p y" by (cases y) (auto simp: boundary_def)
  with m_opener_intro[of p kw ws r'] ws show ?thesis unfolding y by simp
qed

lemma count_matches_snoc:
  "word_kw kw \<Longrightarrow> count_matches (m_opener kw) p x = 0 \<Longrightarrow>
     count_matches (m_opener kw) p (x @ ''}'') = 0"
proof (induction x arbitrary: p)
  case Nil
  have "m_opener kw p ''}'' = None"
    using m_opener_at[OF Nil(1), of p "''}''"] by (cases "m_opener kw p ''}''") auto
  then show ?case by simp
next
  case (Cons c x)
  from Cons.prems have n: "m_opener kw p (c # x) = None" and r: "count_matches (m_opener kw) (Some c) x = 0"
    by (auto split: if_splits)
  from n m_opener_snoc[of kw p "c # x"] have "m_opener kw p (c # x @ ''}'') = None"
    by (cases "m_opener kw p (c # x @ ''}'')") auto
  with Cons.IH[OF Cons.prems(1) r] show ?case by simp
qed

text \<open>After the texture unit step no texture unit opener is left.\<close>

lemma tu_chars:
  "k < 12 \<Longrightarrow> is_word (''texture_unit'' ! k)"
  by (auto simp: less_Suc_eq numeral_eq_Suc is_word_def)

lemma no_opener_in_renamed:
  "\<not> prefix (''texture_unit'' @ ws @ ''{'') (''texture_unit Diffuse_Map'' @ R)" if "\<forall>c\<in>set ws. is_space c"
proof
  assume "prefix (''texture_unit'' @ ws @ ''{'') (''texture_unit Diffuse_Map'' @ R)"
  then have p: "prefix (ws @ ''{'') ('' Diffuse_Map'' @ R)" by simp
  show False
  proof (cases ws)
    case Nil
    with p show False by simp
  next
    case (Cons w ws')
    with p have p': "prefix (ws' @ ''{'') (''Diffuse_Map'' @ R)" by simp
    show False
    proof (cases ws')
      case Nil
      with p' show False by simp
    next
      case (Cons w' ws'')
      with p' have "w' = CHR ''D''" by simp
      moreover from that \<open>ws = w # ws'\<close> Cons have "is_space w'" by simp
      ultimately show False by (simp add: is_space_def)
    qed
  qed
qed

lemma renamed_tu_count:
  "count_matches (m_opener ''texture_unit'') p (''texture_unit Diffuse_Map'' @ R) =
   count_matches (m_opener ''texture_unit'') (Some CHR ''p'') R"
  by (simp add: m_opener_def is_space_def)

lemma m_keyword_not_Nil [simp]: "kw \<noteq> [] \<Longrightarrow> m_keyword kw p [] = None"
  by (simp add: m_keyword_def)

lemma re_sub_tu_match:
  assumes "m_keyword ''texture_unit'' q s = Some n"
  shows "re_sub (m_keyword ''texture_unit'') (\<lambda>_. ''texture_unit Diffuse_Map'') q s =
     ''texture_unit Diffuse_Map'' @
     re_sub (m_keyword ''texture_unit'') (\<lambda>_. ''texture_unit Diffuse_Map'') (Some CHR ''t'') (drop 12 s)
     \<and> \<not> word_opt q \<and> prefix ''texture_unit'' s"
proof -
  from m_keyword_Some[OF assms] have n: "n = 12" and pk: "prefix ''texture_unit'' s"
    and b: "boundary q s" by auto
  from pk obtain rest where s: "s = ''texture_unit'' @ rest" by (auto simp: prefix_def)
  from b have w: "\<not> word_opt q" unfolding s by (simp add: boundary_def is_word_def)
  have "m_keyword ''texture_unit'' q (''texture_unit'' @ rest) = Some (length ''texture_unit'')"
    using assms unfolding s n by simp
  from re_sub_match[of "m_keyword ''texture_unit''" q "''texture_unit''" rest
      "\<lambda>_. ''texture_unit Diffuse_Map''", OF this] w pk
  show ?thesis unfolding s by simp
qed

lemma tu_prefix_through:
  assumes ws: "\<forall>c\<in>set ws. is_space c"
  shows "prefix (drop k (''texture_unit'' @ ws @ ''{''))
       (re_sub (m_keyword ''texture_unit'') (\<lambda>_. ''texture_unit Diffuse_Map'') q s) \<Longrightarrow>
     (0 < k \<longrightarrow> q = Some ((''texture_unit'' @ ws @ ''{'') ! (k - 1))) \<Longrightarrow>
     prefix (drop k (''texture_unit'' @ ws @ ''{'')) s"
proof (induction s arbitrary: k q)
  case Nil
  then show ?case by simp
next
  case (Cons c cs)
  let ?W = "''texture_unit'' @ ws @ ''{''"
  let ?r = "\<lambda>_::string. ''texture_unit Diffuse_Map''"
  show ?case
  proof (cases "drop k ?W = []")
    case True
    then show ?thesis by simp
  next
    case ne: False
    then have kl: "k < length ?W" by simp
    then have x: "drop k ?W = ?W ! k # drop (Suc k) ?W" by (rule Cons_nth_drop_Suc[symmetric])
    show ?thesis
    proof (cases "m_keyword ''texture_unit'' q (c # cs)")
      case None
      with Cons.prems(1) have "prefix (?W ! k # drop (Suc k) ?W)
         (c # re_sub (m_keyword ''texture_unit'') ?r (Some c) cs)"
        unfolding x by simp
      then have c: "?W ! k = c" and p: "prefix (drop (Suc k) ?W)
         (re_sub (m_keyword ''texture_unit'') ?r (Some c) cs)" by simp_all
      from Cons.IH[OF p] c have "prefix (drop (Suc k) ?W) cs" by simp
      with c show ?thesis unfolding x by simp
    next
      case (Some n)
      from re_sub_tu_match[OF Some] obtain R where
        o: "re_sub (m_keyword ''texture_unit'') ?r q (c # cs) = ''texture_unit Diffuse_Map'' @ R"
        and w: "\<not> word_opt q" by blast
      from Cons.prems(1) have p: "prefix (drop k ?W) (''texture_unit Diffuse_Map'' @ R)"
        unfolding o .
      consider "k = 0" | "0 < k" "k \<le> 12" | "12 < k" by linarith
      then show ?thesis
      proof cases
        case 1
        with p no_opener_in_renamed[OF ws, of R] show ?thesis by simp
      next
        case 2
        then have "?W ! (k - 1) = ''texture_unit'' ! (k - 1)"
          by (simp only: nth_append) simp
        moreover have "is_word (''texture_unit'' ! (k - 1))" using 2 by (intro tu_chars) simp
        ultimately have "word_opt q" using Cons.prems(2) 2 by (simp add: word_opt_def)
        with w show ?thesis by simp
      next
        case 3
        have "?W ! k \<in> set (drop k ?W)" unfolding x by simp
        moreover have "set (drop k ?W) \<subseteq> set (drop 12 ?W)"
          using 3 by (intro set_drop_subset_set_drop) simp
        moreover have "drop 12 ?W = ws @ ''{''" by simp
        ultimately have "?W ! k \<in> set (ws @ ''{'')" by auto
        then have "is_space (?W ! k) \<or> ?W ! k = CHR ''{''" using ws by auto
        moreover from p have "?W ! k = CHR ''t''" unfolding x by simp
        ultimately show ?thesis by (simp add: is_space_def)
      qed
    qed
  qed
qed

lemma m_keyword_of_opener:
  assumes "m_opener ''texture_unit'' p s \<noteq> None"
  shows "m_keyword ''texture_unit'' p s \<noteq> None"
proof -
  from assms obtain k where "m_opener ''texture_unit'' p s = Some k" by auto
  from m_opener_Some[OF this] obtain ws r where b: "boundary p s"
    and s: "s = ''texture_unit'' @ ws @ CHR ''{'' # r" and ws: "\<forall>c\<in>set ws. is_space c" by blast
  have "\<not> is_word (hd (ws @ CHR ''{'' # r))"
    using ws by (cases ws) (auto dest: space_not_word)
  then have b2: "boundary (Some CHR ''t'') (ws @ CHR ''{'' # r)"
    by (cases "ws @ CHR ''{'' # r") (auto simp: boundary_def word_opt_def is_word_def)
  have "dropWhile is_space (ws @ CHR ''{'' # r) = CHR ''{'' # r" using ws by simp
  with b b2 show ?thesis unfolding s by (simp add: m_keyword_def)
qed

lemma no_opener_after_rename:
  "count_matches (m_opener ''texture_unit'') p
     (re_sub (m_keyword ''texture_unit'') (\<lambda>_. ''texture_unit Diffuse_Map'') p s) = 0"
proof (induction s arbitrary: p rule: length_induct)
  case (1 s)
  let ?M = "m_opener ''texture_unit''"
  let ?K = "m_keyword ''texture_unit''"
  let ?r = "\<lambda>_::string. ''texture_unit Diffuse_Map''"
  show ?case
  proof (cases s)
    case Nil
    then show ?thesis by simp
  next
    case (Cons c cs)
    show ?thesis
    proof (cases "?K p s")
      case None
      then have o: "re_sub ?K ?r p s = c # re_sub ?K ?r (Some c) cs" unfolding Cons by simp
      from 1 Cons have ih: "count_matches ?M (Some c) (re_sub ?K ?r (Some c) cs) = 0" by simp
      have "?M p (re_sub ?K ?r p s) = None"
      proof (rule ccontr)
        assume a: "?M p (re_sub ?K ?r p s) \<noteq> None"
        then obtain k where "?M p (re_sub ?K ?r p s) = Some k" by auto
        from m_opener_Some[OF this] obtain ws r where b: "boundary p (re_sub ?K ?r p s)"
          and e: "re_sub ?K ?r p s = ''texture_unit'' @ ws @ CHR ''{'' # r"
          and ws: "\<forall>c\<in>set ws. is_space c" by blast
        have "prefix (drop 0 (''texture_unit'' @ ws @ ''{'')) (re_sub ?K ?r p s)"
          unfolding e by simp
        from tu_prefix_through[OF ws this] obtain r2 where
          s: "s = ''texture_unit'' @ ws @ CHR ''{'' # r2" by (auto simp: prefix_def)
        from b[unfolded o] have "boundary p s" unfolding Cons by (simp add: boundary_def)
        from m_opener_intro[OF this[unfolded s] ws] have "?M p s \<noteq> None" unfolding s by simp
        from m_keyword_of_opener[OF this] None show False by simp
      qed
      then show ?thesis using ih unfolding o by simp
    next
      case (Some n)
      from re_sub_tu_match[OF Some] have
        o: "re_sub ?K ?r p s = ''texture_unit Diffuse_Map'' @ re_sub ?K ?r (Some CHR ''t'') (drop 12 s)"
        and pk: "prefix ''texture_unit'' s" by simp_all
      from pk have "length (drop 12 s) < length s" by (auto simp: prefix_def)
      with 1 have ih: "count_matches ?M (Some CHR ''t'') (re_sub ?K ?r (Some CHR ''t'') (drop 12 s)) = 0"
        by blast
      have "word_opt (Some CHR ''p'') = word_opt (Some CHR ''t'')"
        by (simp add: word_opt_def is_word_def)
      from count_matches_word_opt[OF this] ih show ?thesis
        unfolding o renamed_tu_count by simp
    qed
  qed
qed

text \<open>No opener in the new header, unless the old header had one.\<close>

lemma pre_brace_in_text:
  assumes "CHR ''{'' \<in> set t"
  shows "\<exists>U. take (nat (find_char CHR ''{'' t) + 1) t = U @ pre_brace_of n t @ ''{''"
proof -
  from find_char_split[OF assms] obtain a b where t: "t = a @ CHR ''{'' # b"
    and f: "find_char CHR ''{'' t = int (length a)" by blast
  let ?L = "length (''material '' @ n)"
  have "pre_brace_of n t = drop ?L (take (length a) t)"
    unfolding pre_brace_of_def Let_def f by (rule py_slice_nat)
  also have "take (length a) t = a" unfolding t by simp
  finally have p: "pre_brace_of n t = drop ?L a" .
  have "take (nat (find_char CHR ''{'' t) + 1) t = a @ ''{''" unfolding f by (simp add: t)
  also have "a = take ?L a @ drop ?L a" by simp
  finally have "take (nat (find_char CHR ''{'' t) + 1) t = take ?L a @ pre_brace_of n t @ ''{''"
    unfolding p by simp
  then show ?thesis by blast
qed

lemma first_occurrence_unique:
  "x \<notin> set a \<Longrightarrow> x \<notin> set b \<Longrightarrow> a @ x # v = b @ x # r \<Longrightarrow> a = b"
proof (induction a arbitrary: b)
  case Nil
  then show ?case by (cases b) auto
next
  case (Cons c a)
  then show ?case by (cases b) auto
qed

lemma opener_before_brace:
  assumes m: "m_opener ''texture_unit'' q (a @ CHR ''{'' # v) \<noteq> None" and a: "CHR ''{'' \<notin> set a"
  shows "\<exists>ws. a = ''texture_unit'' @ ws \<and> (\<forall>c\<in>set ws. is_space c) \<and> \<not> word_opt q"
proof -
  from m obtain k where k: "m_opener ''texture_unit'' q (a @ CHR ''{'' # v) = Some k" by auto
  from m_opener_Some[OF k] obtain ws r where
    e: "a @ CHR ''{'' # v = ''texture_unit'' @ ws @ CHR ''{'' # r"
    and ws: "\<forall>c\<in>set ws. is_space c" by blast
  define kw where "kw = ''texture_unit''"
  have h1: "CHR ''{'' \<notin> set (kw @ ws)" using ws unfolding kw_def by auto
  from e have e': "a @ CHR ''{'' # v = (kw @ ws) @ CHR ''{'' # r" unfolding kw_def by simp
  from first_occurrence_unique[OF a h1 e'] have "a = kw @ ws" .
  moreover from m_opener_at[OF word_kw_tu m] have "\<not> word_opt q" by simp
  ultimately show ?thesis using ws unfolding kw_def by blast
qed

lemma base_suffix_no_opener:
  assumes "i < length (A0 @ ''se'')" "drop i (A0 @ ''se'') @ pre = ''texture_unit'' @ ws"
    "\<forall>c\<in>set ws. is_space c"
  shows False
proof (cases "i \<le> length A0")
  case True
  then have d: "drop i (A0 @ ''se'') = drop i A0 @ ''se''" by simp
  have "CHR ''s'' \<in> set (drop i A0 @ ''se'')" by simp
  then have "CHR ''s'' \<in> set (drop i (A0 @ ''se''))" by (simp only: d)
  then have "CHR ''s'' \<in> set (drop i (A0 @ ''se'') @ pre)" by (simp only: set_append Un_iff simp_thms)
  then have "CHR ''s'' \<in> set (''texture_unit'' @ ws)" by (simp only: assms(2))
  then have "CHR ''s'' \<in> set ws" by simp
  with assms(3) have "is_space CHR ''s''" by blast
  then show False by (simp add: is_space_def)
next
  case False
  with assms(1) have "i = Suc (length A0)" by simp
  then have d: "drop i (A0 @ ''se'') = ''e''" by simp
  from assms(2) have "''e'' @ pre = ''texture_unit'' @ ws" by (simp only: d)
  then show False by simp
qed

lemma header_no_opener:
  assumes nm: "name_match t = Some (g1, g2)"
    and hyp: "texture_unit_count (take (nat (find_char CHR ''{'' t) + 1) t) = 0"
    and br: "CHR ''{'' \<in> set t"
    and i: "i < length (header_of g1 t @ ''{'')"
  shows "m_opener ''texture_unit'' (last_opt None (take i (header_of g1 t @ ''{'')))
     (drop i ((header_of g1 t @ ''{'') @ v)) = None"
proof (rule ccontr)
  let ?M = "m_opener ''texture_unit''"
  define H where "H = header_of g1 t"
  define pre where "pre = pre_brace_of (strip g1) t"
  define A0 where "A0 = ''material '' @ strip g1 @ '': RoR/Managed_Mats/Ba''"
  define q where "q = last_opt None (take i (H @ ''{''))"
  assume "?M (last_opt None (take i (header_of g1 t @ ''{'')))
     (drop i ((header_of g1 t @ ''{'') @ v)) \<noteq> None"
  then have a: "?M q (drop i ((H @ ''{'') @ v)) \<noteq> None" unfolding q_def H_def .
  from i have i': "i < length (H @ ''{'')" unfolding H_def .
  have H: "H = (A0 @ ''se'') @ pre" unfolding H_def A0_def pre_def by (simp add: header_of_def)
  have Hnb: "CHR ''{'' \<notin> set H" unfolding H_def by (rule header_no_brace[OF nm])
  show False
  proof (cases "i = length H")
    case True
    then have "drop i ((H @ ''{'') @ v) = CHR ''{'' # v" by simp
    with m_opener_at[OF _ a] show False by simp
  next
    case False
    with i' have il: "i < length H" by simp
    then have d: "drop i ((H @ ''{'') @ v) = drop i H @ CHR ''{'' # v" by simp
    have nb: "CHR ''{'' \<notin> set (drop i H)"
      using Hnb by (auto dest: in_set_dropD)
    from opener_before_brace[OF a[unfolded d] nb] obtain ws where
      e: "drop i H = ''texture_unit'' @ ws" and ws: "\<forall>c\<in>set ws. is_space c"
      and nq: "\<not> word_opt q" by blast
    have tk: "take i (H @ ''{'') = take i H" using il by simp
    show False
    proof (cases "i < length (A0 @ ''se'')")
      case True
      then have "drop i H = drop i (A0 @ ''se'') @ pre" unfolding H by (simp only: drop_append) simp
      with e have "drop i (A0 @ ''se'') @ pre = ''texture_unit'' @ ws" by (simp only:)
      from base_suffix_no_opener[OF True this ws] show False .
    next
      case ge: False
      define j where "j = i - length (A0 @ ''se'')"
      from ge have ij: "i = length (A0 @ ''se'') + j" unfolding j_def by simp
      have dj: "drop i H = drop j pre" unfolding H ij by (simp only: drop_append) simp
      have tj: "take i H = (A0 @ ''se'') @ take j pre" unfolding H ij by (simp only: take_append) simp
      show False
      proof (cases "j = 0")
        case True
        then have "q = Some CHR ''e''" unfolding q_def tk tj by (simp add: last_opt_def)
        with nq show False by (simp add: word_opt_def is_word_def)
      next
        case jp: False
        from il ij H have jl: "j < length pre" by simp
        with jp have tne: "take j pre \<noteq> []" by (cases pre) auto
        then have q: "q = Some (last (take j pre))" unfolding q_def tk tj by (simp add: last_opt_def)
        from pre_brace_in_text[OF br, of "strip g1"] obtain U where
          U: "take (nat (find_char CHR ''{'' t) + 1) t = U @ pre @ ''{''" unfolding pre_def by blast
        have "U @ pre @ ''{'' = (U @ take j pre) @ (drop j pre @ ''{'')" by simp
        also have "drop j pre = ''texture_unit'' @ ws" using e dj by (simp only:)
        finally have U': "take (nat (find_char CHR ''{'' t) + 1) t =
            (U @ take j pre) @ (''texture_unit'' @ ws @ ''{'')" unfolding U by simp
        from hyp have "count_matches ?M None ((U @ take j pre) @ (''texture_unit'' @ ws @ ''{'')) = 0"
          unfolding U' by (simp only: texture_unit_count_def findall_count_matches[OF word_kw_tu])
        from count_matches_zero[OF this] have "?M (last_opt None (U @ take j pre))
            (''texture_unit'' @ ws @ ''{'') = None" by simp
        moreover have "last_opt None (U @ take j pre) = q"
          unfolding q using tne by (simp add: last_opt_def)
        moreover have "boundary q (''texture_unit'' @ ws @ CHR ''{'' # [])"
          using nq by (simp add: boundary_def is_word_def)
        from m_opener_intro[OF this ws] have "?M q (''texture_unit'' @ ws @ ''{'') \<noteq> None" by simp
        ultimately show False by simp
      qed
    qed
  qed
qed

text \<open>
  C8, as stated, fails: in the block \<open>material A<newline>texture_unit{pass{}}\<close> the only
  texture unit opener ends at the first \<open>{\<close> of the block, so it lies in the text kept
  before the brace and not in the inner content. The block is eligible, and so is its
  transformation.
\<close>

theorem transform_material_rejected_counterexample:
  "is_eligible_material (''material A'' @ [CHR 0x0A] @ ''texture_unit{pass{}}'') \<and>
   transform_material (''material A'' @ [CHR 0x0A] @ ''texture_unit{pass{}}'') =
     Inr (''material A: RoR/Managed_Mats/Base'' @ [CHR 0x0A] @ ''texture_unit{pass{}}'') \<and>
   is_eligible_material (''material A: RoR/Managed_Mats/Base'' @ [CHR 0x0A] @ ''texture_unit{pass{}}'')"
  by (simp add: eval_defs)

text \<open>
  C8, amended. For every eligible block whose text up to and including its first \<open>{\<close>
  holds no texture unit opener, what the transformation returns is not eligible: every
  texture unit opener of the inner content has been renamed, and none is left in the
  output. So a second run leaves such a rewritten block as it is.
\<close>

theorem transform_material_rejected:
  "is_eligible_material t \<Longrightarrow> transform_material t = Inr out \<Longrightarrow>
   texture_unit_count (take (nat (find_char CHR ''{'' t) + 1) t) = 0 \<Longrightarrow>
   \<not> is_eligible_material out"
proof -
  assume e: "is_eligible_material t" and tr: "transform_material t = Inr out"
    and hyp: "texture_unit_count (take (nat (find_char CHR ''{'' t) + 1) t) = 0"
  let ?M = "m_opener ''texture_unit''"
  from transform_material_shape[OF tr] obtain g1 g2 where nm: "name_match t = Some (g1, g2)"
    and o: "out = header_of g1 t @ ''{'' @
           rename_texture_unit (rename_passes (rename_technique (inner_of t))) @ ''}''" by blast
  define x where "x = rename_passes (rename_technique (inner_of t))"
  let ?H = "header_of g1 t"
  let ?v = "rename_texture_unit x @ ''}''"
  have o': "out = (?H @ ''{'') @ ?v" unfolding o x_def by simp
  have "count_matches ?M None ((?H @ ''{'') @ ?v) = count_matches ?M (last_opt None (?H @ ''{'')) ?v"
    by (rule count_matches_skip_prefix) (rule header_no_opener[OF nm hyp eligible_has_brace[OF e]])
  also have "last_opt None (?H @ ''{'') = Some CHR ''{''" by (simp add: last_opt_def)
  also have "count_matches ?M (Some CHR ''{'') ?v = 0"
  proof (rule count_matches_snoc)
    have "word_opt (Some CHR ''{'') = word_opt None" by (simp add: word_opt_def)
    from count_matches_word_opt[OF this] no_opener_after_rename[of None x]
    show "count_matches ?M (Some CHR ''{'') (rename_texture_unit x) = 0"
      by (simp add: rename_texture_unit_def)
  qed simp
  finally have "texture_unit_count out = 0"
    unfolding o' by (simp add: texture_unit_count_def findall_count_matches)
  then show ?thesis by (simp add: is_eligible_material_def)
qed

theorem transform_material_rejected_witness:
  "is_eligible_material ''material A { technique { pass { texture_unit { } } } }'' \<and>
   transform_material ''material A { technique { pass { texture_unit { } } } }'' =
     Inr ''material A: RoR/Managed_Mats/Base { technique BaseTechnique { pass BaseRender { texture_unit Diffuse_Map { } } } }'' \<and>
   texture_unit_count (take (nat (find_char CHR ''{'' ''material A { technique { pass { texture_unit { } } } }'') + 1)
      ''material A { technique { pass { texture_unit { } } } }'') = 0 \<and>
   \<not> is_eligible_material ''material A: RoR/Managed_Mats/Base { technique BaseTechnique { pass BaseRender { texture_unit Diffuse_Map { } } } }''"
proof -
  have e: "is_eligible_material ''material A { technique { pass { texture_unit { } } } }''"
    by (simp add: eval_defs)
  have t: "transform_material ''material A { technique { pass { texture_unit { } } } }'' =
     Inr ''material A: RoR/Managed_Mats/Base { technique BaseTechnique { pass BaseRender { texture_unit Diffuse_Map { } } } }''"
    by (simp add: eval_defs)
  have h: "texture_unit_count (take (nat (find_char CHR ''{'' ''material A { technique { pass { texture_unit { } } } }'') + 1)
      ''material A { technique { pass { texture_unit { } } } }'') = 0"
    by (simp add: eval_defs)
  from transform_material_rejected[OF e t h] e t h show ?thesis by blast
qed

section \<open>A file with one block of the usual shape\<close>

lemma word_kw_technique [simp]: "word_kw ''technique''"
  by (simp add: word_kw_def is_word_def)

lemma quiet_Nil [simp]: "quiet m p [] y"
  by (simp add: quiet_def)

lemma quiet_append:
  assumes "quiet m p x (x' @ y)" "quiet m (last_opt p x) x' y"
  shows "quiet m p (x @ x') y"
  unfolding quiet_def
proof (intro allI impI)
  fix i assume i: "i < length (x @ x')"
  show "m (last_opt p (take i (x @ x'))) (drop i ((x @ x') @ y)) = None"
  proof (cases "i < length x")
    case True
    with assms(1) show ?thesis by (simp add: quiet_def)
  next
    case False
    define j where "j = i - length x"
    from False i have j: "i = length x + j" "j < length x'" unfolding j_def by simp_all
    have "last_opt p (take i (x @ x')) = last_opt (last_opt p x) (take j x')"
      unfolding j(1) by (simp add: last_opt_def)
    moreover have "drop i ((x @ x') @ y) = drop j (x' @ y)" unfolding j(1) by simp
    ultimately show ?thesis using assms(2) j(2) by (simp add: quiet_def)
  qed
qed

lemma re_sub_quiet:
  "quiet m p x y \<Longrightarrow> re_sub m r p (x @ y) = x @ re_sub m r (last_opt p x) y"
  by (rule re_sub_skip) (simp add: quiet_def)

lemma re_sub_quiet_all:
  assumes "quiet m p x []" "m (last_opt p x) [] = None"
  shows "re_sub m r p x = x"
  using re_sub_quiet[OF assms(1), of r] assms(2) by simp

text \<open>No keyword starts inside a text that holds none and ends in a non-word character.\<close>

lemma no_keyword_prefix:
  assumes k: "word_kw K" and ns: "\<not> sublist K x" and l: "x = [] \<or> \<not> is_word (last x)"
    and i: "i < length x"
  shows "\<not> prefix K (drop i (x @ y))"
proof
  assume p: "prefix K (drop i (x @ y))"
  define d where "d = drop i x"
  from i have dn: "d \<noteq> []" and dx: "drop i (x @ y) = d @ y" unfolding d_def by simp_all
  show False
  proof (cases "length K \<le> length d")
    case True
    with p have "prefix K d" unfolding dx by (auto simp: prefix_append)
    then have "sublist K d" by (rule prefix_imp_sublist)
    moreover have "sublist d x" unfolding d_def by (rule sublist_drop)
    ultimately have "sublist K x" by (rule sublist_order.order.trans)
    with ns show False ..
  next
    case False
    with p have "prefix d K" unfolding dx
      by (metis prefix_append prefix_order.order_refl nat_le_linear prefix_length_le prefix_order.antisym)
    then obtain e where K: "K = d @ e" by (auto simp: prefix_def)
    from dn have "last d \<in> set K" unfolding K by simp
    with k have "is_word (last d)" by (simp add: word_kw_def)
    moreover from dn i have "last d = last x" unfolding d_def by simp
    ultimately show False using l i by auto
  qed
qed

lemma m_keyword_None: "\<not> prefix kw s \<Longrightarrow> m_keyword kw p s = None"
  by (simp add: m_keyword_def)

lemma m_pass_block_None: "\<not> prefix ''pass'' s \<Longrightarrow> m_pass_block p s = None"
  by (simp add: m_pass_block_def)

lemma plain_quiet_technique:
  assumes "plain x"
  shows "quiet (m_keyword ''technique'') p x y"
  unfolding quiet_def
proof (intro allI impI)
  fix i assume i: "i < length x"
  from assms have a: "\<not> sublist ''technique'' x" and b: "x = [] \<or> \<not> is_word (last x)"
    by (simp_all add: plain_def)
  from no_keyword_prefix[OF word_kw_technique a b i]
  show "m_keyword ''technique'' (last_opt p (take i x)) (drop i (x @ y)) = None"
    by (rule m_keyword_None)
qed

lemma plain_quiet_texture_unit:
  assumes "plain x"
  shows "quiet (m_keyword ''texture_unit'') p x y"
  unfolding quiet_def
proof (intro allI impI)
  fix i assume i: "i < length x"
  from assms have a: "\<not> sublist ''texture_unit'' x" and b: "x = [] \<or> \<not> is_word (last x)"
    by (simp_all add: plain_def)
  from no_keyword_prefix[OF word_kw_tu a b i]
  show "m_keyword ''texture_unit'' (last_opt p (take i x)) (drop i (x @ y)) = None"
    by (rule m_keyword_None)
qed

lemma plain_quiet_pass:
  assumes "plain x"
  shows "quiet m_pass_block p x y"
  unfolding quiet_def
proof (intro allI impI)
  fix i assume i: "i < length x"
  from assms have a: "\<not> sublist ''pass'' x" and b: "x = [] \<or> \<not> is_word (last x)"
    by (simp_all add: plain_def)
  from no_keyword_prefix[OF word_kw_pass a b i]
  show "m_pass_block (last_opt p (take i x)) (drop i (x @ y)) = None"
    by (rule m_pass_block_None)
qed

lemma no_hd_prefix:
  assumes "K \<noteq> []" "hd K \<notin> set x" "i < length x"
  shows "\<not> prefix K (drop i (x @ y))"
proof
  assume p: "prefix K (drop i (x @ y))"
  from assms(3) have "drop i (x @ y) = x ! i # drop (Suc i) x @ y"
    by (simp add: Cons_nth_drop_Suc)
  with p assms(1) have "hd K = x ! i" by (cases K) auto
  with assms(2,3) show False by simp
qed

lemma no_hd_quiet_keyword:
  "K \<noteq> [] \<Longrightarrow> hd K \<notin> set x \<Longrightarrow> quiet (m_keyword K) p x y"
  unfolding quiet_def using no_hd_prefix[of K x] m_keyword_None by blast

lemma no_hd_quiet_pass: "CHR ''p'' \<notin> set x \<Longrightarrow> quiet m_pass_block p x y"
  unfolding quiet_def using no_hd_prefix[of "''pass''" x] m_pass_block_None by fastforce

text \<open>Inside a word, \<open>\b\<close> fails.\<close>

lemma word_quiet_keyword:
  assumes k: "word_kw K" and w: "\<forall>c\<in>set x. is_word c" and h: "\<not> prefix K (x @ y)"
  shows "quiet (m_keyword K) p x y"
  unfolding quiet_def
proof (intro allI impI)
  fix i assume i: "i < length x"
  show "m_keyword K (last_opt p (take i x)) (drop i (x @ y)) = None"
  proof (cases i)
    case 0
    with h show ?thesis by (simp add: m_keyword_None)
  next
    case (Suc j)
    with i have "take i x \<noteq> []" by (cases x) auto
    then have q: "last_opt p (take i x) = Some (last (take i x))" by (simp add: last_opt_def)
    have "last (take i x) \<in> set x" using \<open>take i x \<noteq> []\<close>
      by (meson in_set_takeD last_in_set)
    with w have wq: "word_opt (last_opt p (take i x))" unfolding q by (simp add: word_opt_def)
    show ?thesis
    proof (cases "prefix K (drop i (x @ y))")
      case False
      then show ?thesis by (rule m_keyword_None)
    next
      case True
      from i have "drop i (x @ y) = x ! i # drop (Suc i) x @ y" by (simp add: Cons_nth_drop_Suc)
      moreover from w i have "is_word (x ! i)" by simp
      ultimately have "\<not> boundary (last_opt p (take i x)) (drop i (x @ y))"
        using wq by (simp add: boundary_def)
      then show ?thesis by (simp add: m_keyword_def)
    qed
  qed
qed

text \<open>Plain texts.\<close>

lemma no_sublist_append:
  assumes k: "word_kw K" and x: "\<not> sublist K x" and y: "\<not> sublist K y"
    and l: "x = [] \<or> \<not> is_word (last x)"
  shows "\<not> sublist K (x @ y)"
proof
  assume "sublist K (x @ y)"
  with x y obtain k1 k2 where K: "K = k1 @ k2" and s: "suffix k1 x" and p: "prefix k2 y"
    unfolding sublist_append by blast
  show False
  proof (cases "k1 = []")
    case True
    with K p have "sublist K y" by simp
    with y show False ..
  next
    case False
    from s obtain z where xz: "x = z @ k1" by (auto simp: suffix_def)
    with False have "last x = last k1" "x \<noteq> []" by simp_all
    moreover from False have "last k1 \<in> set K" unfolding K by simp
    with k have "is_word (last k1)" by (simp add: word_kw_def)
    ultimately show False using l by simp
  qed
qed

lemma plain_append: 
  assumes "plain x" "plain y"
  shows "plain (x @ y)"
proof -
  from assms have l: "x = [] \<or> \<not> is_word (last x)" and l': "y = [] \<or> \<not> is_word (last y)"
    by (simp_all add: plain_def)
  from assms have 1: "\<not> sublist ''technique'' (x @ y)"
    by (intro no_sublist_append[OF word_kw_technique _ _ l]) (simp_all add: plain_def)
  from assms have 2: "\<not> sublist ''pass'' (x @ y)"
    by (intro no_sublist_append[OF word_kw_pass _ _ l]) (simp_all add: plain_def)
  from assms have 3: "\<not> sublist ''texture_unit'' (x @ y)"
    by (intro no_sublist_append[OF word_kw_tu _ _ l]) (simp_all add: plain_def)
  have 4: "x @ y = [] \<or> \<not> is_word (last (x @ y))" using l l' by (cases "y = []") simp_all
  from 1 2 3 4 show ?thesis unfolding plain_def by (intro conjI)
qed

lemma no_sublist_space:
  assumes "word_kw K" "\<forall>c\<in>set w. is_space c"
  shows "\<not> sublist K w"
proof
  assume "sublist K w"
  then have "set K \<subseteq> set w" by (rule set_mono_sublist)
  moreover from assms(1) have "hd K \<in> set K" "is_word (hd K)" by (simp_all add: word_kw_def)
  ultimately have "is_space (hd K)" "is_word (hd K)" using assms(2) by auto
  then show False by (simp add: space_not_word)
qed

lemma plain_space:
  assumes "\<forall>c\<in>set w. is_space c"
  shows "plain w"
proof -
  have "w = [] \<or> \<not> is_word (last w)"
    using assms space_not_word by (cases "w = []") (auto dest: last_in_set)
  then show ?thesis
    unfolding plain_def
    using no_sublist_space[OF word_kw_technique assms] no_sublist_space[OF word_kw_pass assms]
      no_sublist_space[OF word_kw_tu assms] by (intro conjI)
qed

lemma plain_braces: "plain ''{''" "plain ''}''"
  unfolding plain_def contains_sublist[symmetric] by simp_all

lemma plain_not_word: "plain x \<Longrightarrow> \<not> word_opt (last_opt None x)"
  by (auto simp: plain_def last_opt_def word_opt_def)

lemma plain_not_word': "plain x \<Longrightarrow> x \<noteq> [] \<Longrightarrow> \<not> word_opt (last_opt p x)"
  by (auto simp: plain_def last_opt_def word_opt_def)

lemma m_keyword_intro:
  assumes "word_kw K" "\<not> word_opt p" "\<forall>c\<in>set w. is_space c"
  shows "m_keyword K p (K @ w @ ''{'' @ y) = Some (length K)"
proof -
  from assms(1) obtain k ks where K: "K = k # ks" "is_word k" "is_word (last K)"
    by (cases K) (auto simp: word_kw_def)
  have b1: "boundary p (K @ w @ ''{'' @ y)" using assms(2) K by (simp add: boundary_def)
  have "\<not> is_word (hd (w @ ''{'' @ y))" using assms(3) by (cases w) (auto dest: space_not_word)
  then have b2: "boundary (Some (last K)) (w @ ''{'' @ y)"
    using K(3) by (cases "w @ ''{'' @ y") (auto simp: boundary_def word_opt_def)
  have "dropWhile is_space (w @ CHR ''{'' # y) = CHR ''{'' # y" using assms(3) by simp
  with b1 b2 show ?thesis by (simp add: m_keyword_def)
qed

text \<open>The three steps on a block of the usual shape.\<close>

lemma rename_technique_shape:
  assumes a: "plain a" and b: "plain b" and c: "plain c" and d: "plain d"
    and w: "\<forall>x\<in>set w1. is_space x"
  shows "rename_technique (a @ ''technique'' @ w1 @ ''{'' @ b @ ''pass'' @ c @ ''texture_unit'' @ d) =
     a @ ''technique BaseTechnique'' @ w1 @ ''{'' @ b @ ''pass'' @ c @ ''texture_unit'' @ d"
proof -
  let ?m = "m_keyword ''technique''"
  let ?r = "\<lambda>_::string. ''technique BaseTechnique''"
  define R where "R = w1 @ ''{'' @ b @ ''pass'' @ c @ ''texture_unit'' @ d"
  have 1: "re_sub ?m ?r None (a @ ''technique'' @ R) =
      a @ re_sub ?m ?r (last_opt None a) (''technique'' @ R)"
    by (rule re_sub_quiet) (rule plain_quiet_technique[OF a])
  have m: "?m (last_opt None a) (''technique'' @ R) = Some (length ''technique'')"
    unfolding R_def by (rule m_keyword_intro[OF word_kw_technique plain_not_word[OF a] w])
  have 2: "re_sub ?m ?r (last_opt None a) (''technique'' @ R) =
      ''technique BaseTechnique'' @ re_sub ?m ?r (Some (last ''technique'')) R"
    by (rule re_sub_match[of ?m "last_opt None a" "''technique''" R ?r, OF m]) simp
  have q: "quiet ?m (Some (last ''technique'')) R []"
    unfolding R_def
    apply (rule quiet_append, rule plain_quiet_technique[OF plain_space[OF w]])
    apply (rule quiet_append, rule plain_quiet_technique[OF plain_braces(1)])
    apply (rule quiet_append, rule plain_quiet_technique[OF b])
    apply (rule quiet_append, rule no_hd_quiet_keyword, simp, simp)
    apply (rule quiet_append, rule plain_quiet_technique[OF c])
    apply (rule quiet_append, rule word_quiet_keyword, simp, simp add: is_word_def, simp)
    apply (rule plain_quiet_technique[OF d])
    done
  have 3: "re_sub ?m ?r (Some (last ''technique'')) R = R"
    by (rule re_sub_quiet_all[OF q]) simp
  have "rename_technique (a @ ''technique'' @ R) = a @ ''technique BaseTechnique'' @ R"
    unfolding rename_technique_def 1 2 3 ..
  then show ?thesis unfolding R_def .
qed

lemma rename_passes_shape:
  assumes a: "plain a" and b: "plain b" and e: "plain e"
    and w: "\<forall>x\<in>set w2. is_space x" and nb: "CHR ''}'' \<notin> set body"
    and tu: "sublist ''texture_unit'' body"
  shows "rename_passes (a @ ''technique BaseTechnique'' @ b @ ''pass'' @ w2 @ ''{'' @ body @ ''}'' @ e) =
     a @ ''technique BaseTechnique'' @ b @ ''pass BaseRender'' @ w2 @ ''{'' @ body @ ''}'' @ e"
proof -
  let ?m = "m_pass_block"
  let ?r = "replace_pass"
  define span where "span = ''pass'' @ w2 @ ''{'' @ body @ ''}''"
  define pre where "pre = a @ ''technique BaseTechnique'' @ b"
  have sp: "is_pass_span span" unfolding is_pass_span_iff span_def using w nb by blast
  have "sublist body span" unfolding span_def
    using sublist_appendI[of body "''pass'' @ w2 @ ''{''" "''}''"] by simp
  with tu have ts: "sublist ''texture_unit'' span" by (rule sublist_order.order.trans)
  have q: "quiet ?m None pre (span @ e)"
    unfolding pre_def
    apply (rule quiet_append, rule plain_quiet_pass[OF a])
    apply (rule quiet_append, rule no_hd_quiet_pass, simp)
    apply (rule plain_quiet_pass[OF b])
    done
  have 1: "re_sub ?m ?r None (pre @ span @ e) = pre @ re_sub ?m ?r (last_opt None pre) (span @ e)"
    by (rule re_sub_quiet[OF q])
  have ne: "span \<noteq> []" unfolding span_def by simp
  have 2: "re_sub ?m ?r (last_opt None pre) (span @ e) =
      replace_pass span @ re_sub ?m ?r (Some (last span)) e"
    by (rule re_sub_match[of ?m "last_opt None pre" span e ?r, OF m_pass_block_span[OF sp] ne])
  have 3: "re_sub ?m ?r (Some (last span)) e = e"
    by (rule re_sub_quiet_all[OF plain_quiet_pass[OF e]]) (simp add: m_pass_block_def)
  have 4: "replace_pass span = ''pass BaseRender'' @ w2 @ ''{'' @ body @ ''}''"
    unfolding replace_pass_drop[OF sp] using ts by (simp add: span_def)
  have "rename_passes (pre @ span @ e) = pre @ (''pass BaseRender'' @ w2 @ ''{'' @ body @ ''}'') @ e"
    unfolding rename_passes_def 1 2 3 4 ..
  then show ?thesis unfolding pre_def span_def by simp
qed

lemma rename_texture_unit_shape:
  assumes a: "plain a" and b: "plain b" and c: "plain c" and d: "plain d" and cn: "c \<noteq> []"
    and w: "\<forall>x\<in>set w3. is_space x"
  shows "rename_texture_unit
       (a @ ''technique BaseTechnique'' @ b @ ''pass BaseRender'' @ c @ ''texture_unit'' @ w3 @ ''{'' @ d) =
     a @ ''technique BaseTechnique'' @ b @ ''pass BaseRender'' @ c @
       ''texture_unit Diffuse_Map'' @ w3 @ ''{'' @ d"
proof -
  let ?m = "m_keyword ''texture_unit''"
  let ?r = "\<lambda>_::string. ''texture_unit Diffuse_Map''"
  define R where "R = w3 @ ''{'' @ d"
  define pre where "pre = a @ ''technique'' @ '' BaseTechnique'' @ b @ ''pass BaseRender'' @ c"
  have q: "quiet ?m None pre (''texture_unit'' @ R)"
    unfolding pre_def
    apply (rule quiet_append, rule plain_quiet_texture_unit[OF a])
    apply (rule quiet_append, rule word_quiet_keyword, simp, simp add: is_word_def, simp)
    apply (rule quiet_append, rule no_hd_quiet_keyword, simp, simp)
    apply (rule quiet_append, rule plain_quiet_texture_unit[OF b])
    apply (rule quiet_append, rule no_hd_quiet_keyword, simp, simp)
    apply (rule plain_quiet_texture_unit[OF c])
    done
  have 1: "re_sub ?m ?r None (pre @ ''texture_unit'' @ R) =
      pre @ re_sub ?m ?r (last_opt None pre) (''texture_unit'' @ R)"
    by (rule re_sub_quiet[OF q])
  have "last_opt None pre = last_opt None c" unfolding pre_def using cn by (simp add: last_opt_def)
  with plain_not_word[OF c] have nw: "\<not> word_opt (last_opt None pre)" by simp
  have m: "?m (last_opt None pre) (''texture_unit'' @ R) = Some (length ''texture_unit'')"
    unfolding R_def by (rule m_keyword_intro[OF word_kw_tu nw w])
  have 2: "re_sub ?m ?r (last_opt None pre) (''texture_unit'' @ R) =
      ''texture_unit Diffuse_Map'' @ re_sub ?m ?r (Some (last ''texture_unit'')) R"
    by (rule re_sub_match[of ?m "last_opt None pre" "''texture_unit''" R ?r, OF m]) simp
  have q': "quiet ?m (Some (last ''texture_unit'')) R []"
    unfolding R_def
    apply (rule quiet_append, rule plain_quiet_texture_unit[OF plain_space[OF w]])
    apply (rule quiet_append, rule plain_quiet_texture_unit[OF plain_braces(1)])
    apply (rule plain_quiet_texture_unit[OF d])
    done
  have 3: "re_sub ?m ?r (Some (last ''texture_unit'')) R = R"
    by (rule re_sub_quiet_all[OF q']) simp
  have "rename_texture_unit (pre @ ''texture_unit'' @ R) = pre @ ''texture_unit Diffuse_Map'' @ R"
    unfolding rename_texture_unit_def 1 2 3 ..
  then show ?thesis unfolding pre_def R_def by simp
qed

text \<open>The name and the slices of a block with a name, a brace, and a last closing brace.\<close>

lemma takeWhile_stop: "\<not> P x \<Longrightarrow> takeWhile P (w @ x # r) = takeWhile P w"
  by (induction w) auto

lemma dropWhile_hd: "xs \<noteq> [] \<Longrightarrow> \<not> P (hd xs) \<Longrightarrow> dropWhile P xs = xs"
  by (cases xs) auto

lemma strip_name:
  assumes n: "name \<noteq> []" "\<not> is_space (hd name)" "\<not> is_space (last name)"
    and v: "\<forall>c\<in>set v. is_space c"
  shows "strip (name @ v) = name"
proof -
  from n have 1: "dropWhile is_space (name @ v) = name @ v" by (intro dropWhile_hd) simp_all
  have 2: "dropWhile is_space (rev v @ rev name) = dropWhile is_space (rev name)"
    by (rule dropWhile_append2) (use v in simp)
  from n have "hd (rev name) = last name" "rev name \<noteq> []" by (simp_all add: hd_rev)
  with n(3) have 3: "dropWhile is_space (rev name) = rev name" by (intro dropWhile_hd) simp_all
  show ?thesis unfolding strip_def 1 rev_append 2 3 by simp
qed

lemma rfind_char_append: "x \<notin> set b \<Longrightarrow> rfind_char x (a @ x # b) = int (length a)"
proof -
  assume "x \<notin> set b"
  then have "x \<notin> set (rev b)" by simp
  from find_char_append[OF this, of "rev a"] show ?thesis
    by (simp add: rfind_char_def)
qed

lemma named_block:
  assumes n: "name \<noteq> []" "\<not> is_space (hd name)" "\<not> is_space (last name)"
    and nb: "CHR ''{'' \<notin> set name" and nl: "CHR 0x0A \<notin> set name"
    and w: "\<forall>c\<in>set w0. is_space c" and t: "CHR ''}'' \<notin> set tail"
  shows "transform_material (''material '' @ name @ w0 @ ''{'' @ inner @ ''}'' @ tail) =
     Inr (''material '' @ name @ '': RoR/Managed_Mats/Base'' @ w0 @ ''{'' @
          rename_texture_unit (rename_passes (rename_technique inner)) @ ''}'')"
proof -
  define mat where "mat = name @ w0 @ ''{'' @ inner @ ''}'' @ tail"
  define block where "block = ''material '' @ mat"
  define P where "P = (\<lambda>c. c \<noteq> CHR 0x0A \<and> c \<noteq> CHR ''{'')"
  define v where "v = takeWhile P w0"
  from n have hm: "mat \<noteq> []" "hd mat = hd name" unfolding mat_def by simp_all
  with n(2) have "mat = [] \<or> \<not> is_space (hd mat)" by simp
  from name_match_block[OF this] have nm: "name_match block = name_groups mat"
    unfolding block_def .
  have "\<forall>c\<in>set name. P c" using nb nl unfolding P_def by auto
  then have "takeWhile P mat = name @ takeWhile P (w0 @ CHR ''{'' # inner @ ''}'' @ tail)"
    unfolding mat_def by (simp add: takeWhile_append2)
  also have "takeWhile P (w0 @ CHR ''{'' # inner @ ''}'' @ tail) = v"
    unfolding v_def by (rule takeWhile_stop) (simp add: P_def)
  finally have g1: "takeWhile P mat = name @ v" .
  have ng: "name_groups mat = Some (name @ v, takeWhile is_space (drop (length (name @ v)) mat))"
    using n(1) unfolding name_groups_def P_def[symmetric] g1 Let_def by simp
  have vs: "\<forall>c\<in>set v. is_space c" unfolding v_def using w by (auto dest: set_takeWhileD)
  have st: "strip (name @ v) = name" by (rule strip_name[OF n vs])
  define h where "h = ''material '' @ name @ w0"
  have hb: "CHR ''{'' \<notin> set h" unfolding h_def using nb w by auto
  have b1: "block = h @ CHR ''{'' # (inner @ ''}'' @ tail)" unfolding block_def mat_def h_def by simp
  have f: "find_char CHR ''{'' block = int (length h)"
    unfolding b1 by (rule find_char_append[OF hb])
  have b2: "block = (h @ ''{'' @ inner) @ CHR ''}'' # tail" unfolding b1 by simp
  have r: "rfind_char CHR ''}'' block = int (length (h @ ''{'' @ inner))"
    unfolding b2 by (rule rfind_char_append[OF t])
  have "pre_brace_of name block = drop (length (''material '' @ name)) (take (length h) block)"
    unfolding pre_brace_of_def Let_def f by (rule py_slice_nat)
  also have "take (length h) block = h" unfolding b1 by simp
  also have "drop (length (''material '' @ name)) h = w0" unfolding h_def by simp
  finally have pb: "pre_brace_of name block = w0" .
  have "int (length h) + 1 = int (length (h @ ''{''))" by simp
  then have "inner_of block = drop (length (h @ ''{'')) (take (length (h @ ''{'' @ inner)) block)"
    unfolding inner_of_def Let_def f r by (simp only: py_slice_nat)
  also have "take (length (h @ ''{'' @ inner)) block = h @ ''{'' @ inner" unfolding b2 by simp
  also have "drop (length (h @ ''{'')) (h @ ''{'' @ inner) = inner" by simp
  finally have io: "inner_of block = inner" .
  have "transform_material block =
     Inr (''material '' @ name @ '': RoR/Managed_Mats/Base'' @ w0 @ ''{'' @
          rename_texture_unit (rename_passes (rename_technique inner)) @ ''}'')"
    unfolding transform_material_def nm ng by (simp add: st pb io Let_def)
  then show ?thesis unfolding block_def mat_def .
qed

lemma main_single_file:
  assumes p: "parse_material_file content = [block]" and e: "is_eligible_material block"
    and t: "transform_material block = Inr new" and f: "suffix ''.material'' f"
  shows "main (Folder [(f, RegFile content)]) =
     Inr \<lparr>input_folder = [(f, RegFile (import_line @ new)),
                           (''old_materials'', Directory [(f, content)])],
          processed_files = 1, processed_materials = 1, updated_materials = 1,
          console = [Scanning, BackupFolder, Processing f, Updated 1 f, Summary 1 1 1],
          fs_log = [Mkdir ''old_materials'', CopyToBackup f, WriteFile f]\<rparr>"
proof -
  have ns: "\<not> suffix ''.material'' ''old_materials''" by (simp add: suffix_to_prefix)
  with f have ne: "f \<noteq> ''old_materials''" by auto
  then have ne': "''old_materials'' \<noteq> f" by simp
  show ?thesis
    using ne ne' f
    by (simp add: main_def init_def run_def new_updater_def glob_material_def process_file_def
        p e t ns Let_def)
qed




end
